theory Spec2Isabelle
  imports Complex_Main "HOL-Library.Sublist"
begin

section \<open>Python text primitives\<close>

text \<open>
  Python strings are sequences of code points. The model covers text whose code points
  are below 256, one \<open>char\<close> per code point, so that \<open>length\<close> is Python's \<open>len\<close>.
  The character classes below are the ones Python uses on that range:
  \<open>str.isspace\<close> and the pattern \<open>\s\<close> agree, \<open>\w\<close> is alphanumeric or underscore,
  \<open>\d\<close> is a decimal digit, and \<open>str.lower\<close> maps one character to one character.
\<close>

definition is_space :: "char \<Rightarrow> bool" where
  "is_space c = (let n = (of_char c :: nat) in
     (9 \<le> n \<and> n \<le> 13) \<or> (28 \<le> n \<and> n \<le> 32) \<or> n = 133 \<or> n = 160)"

definition is_digit :: "char \<Rightarrow> bool" where
  "is_digit c = (let n = (of_char c :: nat) in 48 \<le> n \<and> n \<le> 57)"

definition is_word_char :: "char \<Rightarrow> bool" where
  "is_word_char c = (let n = (of_char c :: nat) in
     (48 \<le> n \<and> n \<le> 57) \<or> (65 \<le> n \<and> n \<le> 90) \<or> n = 95 \<or> (97 \<le> n \<and> n \<le> 122) \<or>
     n = 170 \<or> n = 178 \<or> n = 179 \<or> n = 181 \<or> n = 185 \<or> n = 186 \<or>
     (188 \<le> n \<and> n \<le> 190) \<or> (192 \<le> n \<and> n \<le> 214) \<or> (216 \<le> n \<and> n \<le> 246) \<or>
     (248 \<le> n \<and> n \<le> 255))"

definition lower_char :: "char \<Rightarrow> char" where
  "lower_char c = (let n = (of_char c :: nat) in
     if (65 \<le> n \<and> n \<le> 90) \<or> (192 \<le> n \<and> n \<le> 222 \<and> n \<noteq> 215)
     then char_of (n + 32) else c)"

text \<open>\<open>text.lower()\<close>\<close>

definition str_lower :: "string \<Rightarrow> string" where
  "str_lower s = map lower_char s"

text \<open>\<open>keyword in text\<close>: the keyword occurs as a contiguous substring.\<close>

fun str_contains :: "string \<Rightarrow> string \<Rightarrow> bool" where
  "str_contains keyword [] = (keyword = [])"
| "str_contains keyword (c # cs) = (prefix keyword (c # cs) \<or> str_contains keyword cs)"

text \<open>\<open>text.strip()\<close>: whitespace removed at both ends.\<close>

definition str_strip :: "string \<Rightarrow> string" where
  "str_strip s = rev (dropWhile is_space (rev (dropWhile is_space s)))"

text \<open>\<open>text.split('. ')\<close>: the pieces between the non-overlapping occurrences of
  period-space, scanned from the left; never the empty list.\<close>

fun split_sentences :: "string \<Rightarrow> string list" where
  "split_sentences [] = [[]]"
| "split_sentences [c] = [[c]]"
| "split_sentences (c # d # cs) =
     (if c = CHR ''.'' \<and> d = CHR '' '' then [] # split_sentences cs
      else (case split_sentences (d # cs) of
              [] \<Rightarrow> [[c]]
            | s # ss \<Rightarrow> (c # s) # ss))"

text \<open>\<open>text.split()\<close>: the maximal runs of non-whitespace characters.\<close>

function str_split :: "string \<Rightarrow> string list" where
  "str_split s =
     (case dropWhile is_space s of
        [] \<Rightarrow> []
      | c # cs \<Rightarrow> takeWhile (\<lambda>x. \<not> is_space x) (c # cs)
                  # str_split (dropWhile (\<lambda>x. \<not> is_space x) (c # cs)))"
  by pat_completeness auto
termination
proof (relation "measure length")
  show "wf (measure length)" by simp
next
  fix s :: string and c cs
  assume d: "dropWhile is_space s = c # cs"
  have "length (dropWhile (\<lambda>x. \<not> is_space x) (c # cs)) \<le> length (c # cs)"
    by (rule length_dropWhile_le)
  also have "\<dots> = length (dropWhile is_space s)" using d by simp
  also have "\<dots> \<le> length s" by (rule length_dropWhile_le)
  finally have le: "length (dropWhile (\<lambda>x. \<not> is_space x) (c # cs)) \<le> length s" .
  have "\<not> is_space c" using d by (metis hd_dropWhile list.sel(1) list.distinct(1))
  then have "dropWhile (\<lambda>x. \<not> is_space x) (c # cs) = dropWhile (\<lambda>x. \<not> is_space x) cs" by simp
  then have "length (dropWhile (\<lambda>x. \<not> is_space x) (c # cs)) \<le> length cs"
    by (simp add: length_dropWhile_le)
  moreover have "length (c # cs) \<le> length s"
    using d length_dropWhile_le [of is_space s] by simp
  ultimately show "(dropWhile (\<lambda>x. \<not> is_space x) (c # cs), s) \<in> measure length"
    by simp
qed

declare str_split.simps [simp del]

text \<open>\<open>' '.join(words)\<close>\<close>

fun join_space :: "string list \<Rightarrow> string" where
  "join_space [] = []"
| "join_space [w] = w"
| "join_space (w # v # ws) = w @ CHR '' '' # join_space (v # ws)"

text \<open>\<open>xs[-n:]\<close>: a negative start counts from the end and is clamped at the front of
  the list; \<open>-0\<close> is \<open>0\<close>, so \<open>n = 0\<close> selects the whole list.\<close>

definition slice_last :: "int \<Rightarrow> 'a list \<Rightarrow> 'a list" where
  "slice_last n xs =
     (let start = - n in
      if start < 0 then drop (nat (max 0 (int (length xs) + start))) xs
      else drop (nat start) xs)"

section \<open>Document processor\<close>

record document_processor =
  chunk_size :: int
  chunk_overlap :: int

text \<open>\<open>Config.CHUNK_SIZE\<close> and \<open>Config.CHUNK_OVERLAP\<close>\<close>

definition default_processor :: document_processor where
  "default_processor = \<lparr> chunk_size = 1000, chunk_overlap = 200 \<rparr>"

subsection \<open>\<open>_clean_text\<close>\<close>

text \<open>\<open>re.sub(r'\s+', ' ', text)\<close>: every maximal run of whitespace becomes one space.\<close>

function collapse_whitespace :: "string \<Rightarrow> string" where
  "collapse_whitespace [] = []"
| "collapse_whitespace (c # cs) =
     (if is_space c then CHR '' '' # collapse_whitespace (dropWhile is_space cs)
      else c # collapse_whitespace cs)"
  by pat_completeness auto
termination
  by (relation "measure length") (auto simp: less_Suc_eq_le length_dropWhile_le)

text \<open>The characters outside the negated class of the second substitution.\<close>

definition legal_char :: "char \<Rightarrow> bool" where
  "legal_char c = (is_word_char c \<or> is_space c \<or>
     c \<in> {CHR ''.'', CHR '','', CHR '';'', CHR '':'', CHR ''('', CHR '')'', CHR ''-'',
          CHR ''['', CHR '']'', CHR 0x22, CHR 0x27, CHR ''/'', CHR ''&''})"

text \<open>A match of \<open>--- Page \d+ ---\<close> at the front of the text: what follows the match.\<close>

definition match_page_marker :: "string \<Rightarrow> string option" where
  "match_page_marker s =
     (if prefix ''--- Page '' s then
        (let r = drop 9 s; r' = dropWhile is_digit r in
         if takeWhile is_digit r \<noteq> [] \<and> prefix '' ---'' r' then Some (drop 4 r') else None)
      else None)"

text \<open>\<open>re.sub(r'--- Page \d+ ---', '', text)\<close>: the matches are removed from left to
  right; scanning resumes behind each match.\<close>

function remove_page_markers :: "string \<Rightarrow> string" where
  "remove_page_markers [] = []"
| "remove_page_markers (c # cs) =
     (case match_page_marker (c # cs) of
        Some rest \<Rightarrow> remove_page_markers rest
      | None \<Rightarrow> c # remove_page_markers cs)"
  by pat_completeness auto
termination
proof (relation "measure length")
  show "wf (measure length)" by simp
next
  fix c :: char and cs rest
  assume "match_page_marker (c # cs) = Some rest"
  then have "rest = drop 4 (dropWhile is_digit (drop 9 (c # cs)))"
    by (simp add: match_page_marker_def Let_def split: if_splits)
  moreover have "length (dropWhile is_digit (drop 9 (c # cs))) \<le> length (drop 9 (c # cs))"
    by (rule length_dropWhile_le)
  ultimately show "(rest, c # cs) \<in> measure length" by simp
next
  fix c :: char and cs
  show "(cs, c # cs) \<in> measure length" by simp
qed

text \<open>
  The third step of the source, \<open>text.replace(RUPEE, 'Rs.')\<close>, has no counterpart: the rupee
  sign is code point 8377, and the substitution before it has already removed every
  character that is neither a word character, whitespace nor listed punctuation.
\<close>

definition clean_text :: "string \<Rightarrow> string" where
  "clean_text text =
     (let text1 = collapse_whitespace text;
          text2 = filter legal_char text1;
          text4 = remove_page_markers text2
      in str_strip text4)"

subsection \<open>\<open>_create_chunks\<close>\<close>

text \<open>The loop over the sentences, on the pair of the chunks emitted so far and the
  running buffer \<open>current_chunk\<close>. An empty Python string is false.\<close>

fun chunk_loop ::
  "document_processor \<Rightarrow> string list \<Rightarrow> string list \<times> string \<Rightarrow> string list \<times> string" where
  "chunk_loop p [] (chunks, current_chunk) = (chunks, current_chunk)"
| "chunk_loop p (sentence # sentences) (chunks, current_chunk) =
     (if int (length (current_chunk @ sentence)) > chunk_size p \<and> current_chunk \<noteq> [] then
        (let overlap_words = slice_last (chunk_overlap p) (str_split current_chunk)
         in chunk_loop p sentences
              (chunks @ [str_strip current_chunk],
               join_space overlap_words @ '' '' @ sentence))
      else chunk_loop p sentences (chunks, current_chunk @ sentence @ ''. ''))"

definition create_chunks :: "document_processor \<Rightarrow> string \<Rightarrow> string list" where
  "create_chunks p text =
     (let sentences = split_sentences text;
          (chunks, current_chunk) = chunk_loop p sentences ([], [])
      in if str_strip current_chunk \<noteq> [] then chunks @ [str_strip current_chunk]
         else chunks)"

subsection \<open>\<open>_identify_legal_domain\<close>\<close>

definition constitutional_keywords :: "string list" where
  "constitutional_keywords =
     [''constitution'', ''fundamental rights'', ''directive principles'',
      ''amendment'', ''article'', ''schedule'']"

definition criminal_keywords :: "string list" where
  "criminal_keywords =
     [''criminal'', ''offence'', ''punishment'', ''bail'', ''arrest'',
      ''investigation'', ''charge'', ''ipc'', ''bns'']"

definition civil_keywords :: "string list" where
  "civil_keywords =
     [''civil'', ''contract'', ''property'', ''damages'', ''injunction'',
      ''suit'', ''plaintiff'', ''defendant'']"

definition family_keywords :: "string list" where
  "family_keywords =
     [''marriage'', ''divorce'', ''custody'', ''maintenance'', ''adoption'', ''succession'']"

definition corporate_keywords :: "string list" where
  "corporate_keywords =
     [''company'', ''corporate'', ''shares'', ''director'', ''commercial'', ''business'']"

text \<open>\<open>sum(1 for keyword in keywords if keyword in text_lower)\<close>\<close>

definition keyword_score :: "string list \<Rightarrow> string \<Rightarrow> nat" where
  "keyword_score keywords text_lower =
     sum_list (map (\<lambda>keyword. 1) (filter (\<lambda>keyword. str_contains keyword text_lower) keywords))"

text \<open>The dictionary \<open>domain_scores\<close>, as its items in insertion order.\<close>

definition domain_scores :: "string \<Rightarrow> (string \<times> nat) list" where
  "domain_scores text_lower =
     [(''constitutional'', keyword_score constitutional_keywords text_lower),
      (''criminal'', keyword_score criminal_keywords text_lower),
      (''civil'', keyword_score civil_keywords text_lower),
      (''family'', keyword_score family_keywords text_lower),
      (''corporate'', keyword_score corporate_keywords text_lower)]"

text \<open>\<open>max(items, key=lambda x: x[1])\<close>: the running maximum starts as the first item
  and is replaced only by an item whose key is strictly greater, so the first of several
  maximal items is returned. The dictionary above always has five items.\<close>

fun max_item :: "string \<times> nat \<Rightarrow> (string \<times> nat) list \<Rightarrow> string \<times> nat" where
  "max_item best [] = best"
| "max_item best (x # xs) = max_item (if snd best < snd x then x else best) xs"

definition identify_legal_domain :: "string \<Rightarrow> string" where
  "identify_legal_domain text =
     (let text_lower = str_lower text;
          items = domain_scores text_lower;
          max_domain = max_item (hd items) (tl items)
      in if snd max_domain > 0 then fst max_domain else ''general'')"

subsection \<open>\<open>process_text_file\<close>\<close>

datatype error = FileError | IndexError | KeyError string | StoreError | ModelError

record chunk_metadata =
  source :: string
  doc_type :: string
  chunk_id :: nat
  total_chunks :: nat
  domain :: string

record chunk =
  chunk_content :: string
  chunk_meta :: chunk_metadata

text \<open>\<open>os.path.basename\<close>: what follows the last slash.\<close>

definition basename :: "string \<Rightarrow> string" where
  "basename path = rev (takeWhile (\<lambda>c. c \<noteq> CHR ''/'') (rev path))"

text \<open>The file system is the function \<open>read_file\<close>, which gives the text of a path or
  fails; any failure is logged and the result is the empty list.\<close>

definition process_text_file ::
  "document_processor \<Rightarrow> (string \<Rightarrow> error + string) \<Rightarrow> string \<Rightarrow> chunk list" where
  "process_text_file p read_file file_path =
     (case read_file file_path of
        Inl e \<Rightarrow> []
      | Inr full_text \<Rightarrow>
          (let cleaned_text = clean_text full_text;
               text_chunks = create_chunks p cleaned_text
           in map (\<lambda>(i, c).
                    \<lparr> chunk_content = c,
                      chunk_meta = \<lparr> source = basename file_path,
                                     doc_type = ''txt'',
                                     chunk_id = i,
                                     total_chunks = length text_chunks,
                                     domain = identify_legal_domain c \<rparr> \<rparr>)
                  (enumerate 0 text_chunks)))"

subsection \<open>The tagging rule in the words of the specification\<close>

text \<open>The five keyword sets in the order in which the source enters them into
  \<open>domain_scores\<close>.\<close>

definition domain_keywords :: "(string \<times> string list) list" where
  "domain_keywords =
     [(''constitutional'', constitutional_keywords),
      (''criminal'', criminal_keywords),
      (''civil'', civil_keywords),
      (''family'', family_keywords),
      (''corporate'', corporate_keywords)]"

text \<open>How many keywords of a set occur, in any letter case, somewhere in the text.\<close>

definition matched_keywords :: "string list \<Rightarrow> string \<Rightarrow> nat" where
  "matched_keywords keywords text =
     card {keyword \<in> set keywords. str_contains keyword (str_lower text)}"

text \<open>How many times a keyword occurs in a text: the number of positions at which it
  starts.\<close>

fun occurrences :: "string \<Rightarrow> string \<Rightarrow> nat" where
  "occurrences keyword [] = (if keyword = [] then 1 else 0)"
| "occurrences keyword (c # cs) =
     (if prefix keyword (c # cs) then 1 else 0) + occurrences keyword cs"

text \<open>The occurrences of all keywords of a set, in any letter case.\<close>

definition occurrence_count :: "string list \<Rightarrow> string \<Rightarrow> nat" where
  "occurrence_count keywords text =
     sum_list (map (\<lambda>keyword. occurrences keyword (str_lower text)) keywords)"

text \<open>The tag by occurrence counts: the first domain, in the order above, with the
  highest count, or \<open>general\<close> when every count is zero.\<close>

definition occurrence_tag :: "string \<Rightarrow> string" where
  "occurrence_tag text =
     (let items = map (\<lambda>(d, keywords). (d, occurrence_count keywords text)) domain_keywords;
          best = max_item (hd items) (tl items)
      in if snd best > 0 then fst best else ''general'')"

text \<open>The count of the domain at position \<open>i\<close> of that order.\<close>

definition domain_count :: "nat \<Rightarrow> string \<Rightarrow> nat" where
  "domain_count i text = matched_keywords (snd (domain_keywords ! i)) text"

subsection \<open>Overlap of consecutive chunks\<close>

text \<open>
  Chunks \<open>a\<close> and \<open>b\<close> overlap in \<open>n\<close> words when the last \<open>n\<close> words of \<open>a\<close> are the
  first \<open>n\<close> words of \<open>b\<close>.
\<close>

definition shares_words :: "nat \<Rightarrow> string \<Rightarrow> string \<Rightarrow> bool" where
  "shares_words n a b =
     (let wa = str_split a; wb = str_split b
      in n \<le> length wa \<and> n \<le> length wb \<and> drop (length wa - n) wa = take n wb)"

text \<open>
  The overlap that the source builds: the words carried from a closed chunk into the next
  buffer are \<open>current_chunk.split()[-chunk_overlap:]\<close>, the last \<open>chunk_overlap\<close> words
  of the chunk or all of them when it has fewer.
\<close>

definition overlap_carried :: "document_processor \<Rightarrow> string \<Rightarrow> string \<Rightarrow> bool" where
  "overlap_carried p a b =
     shares_words (min (nat (chunk_overlap p)) (length (str_split a))) a b"

text \<open>A text that repeats itself: four sentences of 300 one-letter words each.\<close>

definition repeated_words :: "nat \<Rightarrow> string" where
  "repeated_words n = join_space (replicate n ''x'')"

definition repetitive_text :: string where
  "repetitive_text =
     repeated_words 300 @ ''. '' @ repeated_words 300 @ ''. ''
     @ repeated_words 300 @ ''. '' @ repeated_words 300"

text \<open>\<open>'. '.join(sentences)\<close>, the inverse of \<open>split_sentences\<close>.\<close>

fun join_sentences :: "string list \<Rightarrow> string" where
  "join_sentences [] = []"
| "join_sentences [s] = s"
| "join_sentences (s # t # ss) = s @ ''. '' @ join_sentences (t # ss)"

section \<open>Vector store\<close>

text \<open>
  Metadata is a dictionary from field names to strings or integers, kept as an
  association list. The collection is the vector index behind \<open>VectorStore\<close>: given the
  query text, the number of results and an optional metadata filter it raises or answers
  with three lists that hold one row per query text.
\<close>

datatype meta_value = MStr string | MInt int

type_synonym metadata = "(string \<times> meta_value) list"

record query_result =
  documents :: "string list list"
  metadatas :: "metadata list list"
  distances :: "real list list"

type_synonym collection =
  "string \<Rightarrow> nat \<Rightarrow> (string \<times> string) list option \<Rightarrow> error + query_result"

text \<open>\<open>VectorStore.similarity_search\<close> logs an exception of the collection and raises it
  again.\<close>

definition similarity_search ::
  "collection \<Rightarrow> string \<Rightarrow> nat \<Rightarrow> (string \<times> string) list option \<Rightarrow> error + query_result" where
  "similarity_search collection query n_results where_filter =
     (case collection query n_results where_filter of
        Inl e \<Rightarrow> Inl e
      | Inr results \<Rightarrow> Inr results)"

section \<open>Retriever\<close>

text \<open>A retrieved document is a dictionary with the keys \<open>content\<close>, \<open>metadata\<close>,
  \<open>similarity_score\<close> and \<open>rank\<close>; a key that is absent is \<open>None\<close>.\<close>

record retrieved_doc =
  content :: "string option"
  metadata :: "metadata option"
  similarity_score :: "real option"
  rank :: "nat option"

text \<open>\<open>xs[0]\<close>\<close>

fun first :: "'a list \<Rightarrow> error + 'a" where
  "first (row # rows) = Inr row"
| "first [] = Inl IndexError"

text \<open>The formatting block that \<open>retrieve_relevant_docs\<close> and \<open>filter_by_legal_domain\<close>
  both contain: the first rows of the three lists are zipped, which stops at the
  shortest, and numbered from zero.\<close>

definition format_results :: "query_result \<Rightarrow> error + retrieved_doc list" where
  "format_results results =
     (case first (documents results) of
        Inl e \<Rightarrow> Inl e
      | Inr docs \<Rightarrow>
          if docs \<noteq> [] then
            (case first (metadatas results) of
               Inl e \<Rightarrow> Inl e
             | Inr metas \<Rightarrow>
                 (case first (distances results) of
                    Inl e \<Rightarrow> Inl e
                  | Inr dists \<Rightarrow>
                      Inr (map (\<lambda>(i, doc, meta, distance).
                                 \<lparr> content = Some doc,
                                   metadata = Some meta,
                                   similarity_score = Some (1 - distance),
                                   rank = Some (i + 1) \<rparr>)
                               (enumerate 0 (zip docs (zip metas dists))))))
          else Inr [])"

definition retrieve_relevant_docs :: "collection \<Rightarrow> string \<Rightarrow> nat \<Rightarrow> retrieved_doc list" where
  "retrieve_relevant_docs collection query n_docs =
     (case similarity_search collection query n_docs None of
        Inl e \<Rightarrow> []
      | Inr results \<Rightarrow>
          (case format_results results of
             Inl e \<Rightarrow> []
           | Inr relevant_docs \<Rightarrow> relevant_docs))"

text \<open>\<open>None\<close> and the empty string are false, and so is the empty dictionary.\<close>

definition filter_by_legal_domain ::
  "collection \<Rightarrow> string \<Rightarrow> string option \<Rightarrow> retrieved_doc list" where
  "filter_by_legal_domain collection query legal_domain =
     (let where_filter =
            (case legal_domain of
               None \<Rightarrow> []
             | Some d \<Rightarrow> if d \<noteq> [] then [(''domain'', d)] else [])
      in case similarity_search collection query 10
                (if where_filter \<noteq> [] then Some where_filter else None) of
           Inl e \<Rightarrow> []
         | Inr results \<Rightarrow>
             (case format_results results of
                Inl e \<Rightarrow> []
              | Inr relevant_docs \<Rightarrow> relevant_docs))"

text \<open>\<open>doc.get('similarity_score', 0)\<close>\<close>

definition score_of :: "retrieved_doc \<Rightarrow> real" where
  "score_of doc = (case similarity_score doc of Some s \<Rightarrow> s | None \<Rightarrow> 0)"

text \<open>The loop invariant for the overlap: once a chunk has been emitted, the buffer
  starts with the words carried over from the last chunk.\<close>

definition carries :: "document_processor \<Rightarrow> string list \<Rightarrow> string \<Rightarrow> bool" where
  "carries p chunks current_chunk \<longleftrightarrow>
     (chunks = [] \<or>
      (\<exists>rest. current_chunk =
         join_space (slice_last (chunk_overlap p) (str_split (last chunks))) @ '' '' @ rest))"

section \<open>Response generator\<close>

text \<open>Decimal notation of an integer, as \<open>str\<close> and the format fields of an f-string
  give it.\<close>

function show_nat :: "nat \<Rightarrow> string" where
  "show_nat n =
     (if n < 10 then [char_of (48 + n)]
      else show_nat (n div 10) @ [char_of (48 + n mod 10)])"
  by pat_completeness auto
termination
  by (relation "measure id") auto

declare show_nat.simps [simp del]

definition show_int :: "int \<Rightarrow> string" where
  "show_int i = (if i < 0 then ''-'' @ show_nat (nat (- i)) else show_nat (nat i))"

definition show_value :: "meta_value \<Rightarrow> string" where
  "show_value v = (case v of MStr s \<Rightarrow> s | MInt i \<Rightarrow> show_int i)"

definition newline :: string where
  "newline = [CHR 0x0A]"

text \<open>\<open>text.replace(old, '')\<close>: the occurrences of \<open>old\<close> are removed from left to
  right without overlap; an empty \<open>old\<close> leaves the text as it is.\<close>

function str_remove :: "string \<Rightarrow> string \<Rightarrow> string" where
  "str_remove old [] = []"
| "str_remove old (c # cs) =
     (if old \<noteq> [] \<and> prefix old (c # cs) then str_remove old (drop (length old) (c # cs))
      else c # str_remove old cs)"
  by pat_completeness auto
termination
proof (relation "measure (\<lambda>(old, s). length s)")
  show "wf (measure (\<lambda>(old, s). length s))" by simp
next
  fix old :: string and c :: char and cs :: string
  assume "old \<noteq> [] \<and> prefix old (c # cs)"
  then have "0 < length old" by simp
  then show "((old, drop (length old) (c # cs)), old, c # cs) \<in> measure (\<lambda>(old, s). length s)"
    by simp
next
  fix old :: string and c :: char and cs :: string
  show "((old, cs), old, c # cs) \<in> measure (\<lambda>(old, s). length s)" by simp
qed

text \<open>The language model behind \<open>self.generator\<close>: called with the prompt and the
  \<open>max_length\<close> bound it raises or returns the generated text of its one output sequence.
  \<open>None\<close> stands for a model that failed to load.\<close>

type_synonym text_generator = "string \<Rightarrow> nat \<Rightarrow> error + string"

record generated_answer =
  response :: string
  sources :: "metadata list"
  confidence :: real

text \<open>\<open>doc['metadata'].get('source', 'Legal Document')\<close>\<close>

definition source_of :: "metadata \<Rightarrow> meta_value" where
  "source_of meta = (case map_of meta ''source'' of Some v \<Rightarrow> v | None \<Rightarrow> MStr ''Legal Document'')"

text \<open>The loop of \<open>_create_context\<close>; reading an absent key raises \<open>KeyError\<close>.\<close>

fun context_parts :: "retrieved_doc list \<Rightarrow> error + string list" where
  "context_parts [] = Inr []"
| "context_parts (doc # docs) =
     (case content doc of
        None \<Rightarrow> Inl (KeyError ''content'')
      | Some c \<Rightarrow>
          (case metadata doc of
             None \<Rightarrow> Inl (KeyError ''metadata'')
           | Some meta \<Rightarrow>
               (case context_parts docs of
                  Inl e \<Rightarrow> Inl e
                | Inr parts \<Rightarrow>
                    Inr ((''From '' @ show_value (source_of meta) @ '': '' @ take 500 c)
                         # parts))))"

text \<open>\<open>"\n\n".join(parts)\<close>\<close>

fun join_blank_line :: "string list \<Rightarrow> string" where
  "join_blank_line [] = []"
| "join_blank_line [s] = s"
| "join_blank_line (s # t # ss) = s @ newline @ newline @ join_blank_line (t # ss)"

definition create_context :: "retrieved_doc list \<Rightarrow> error + string" where
  "create_context relevant_docs =
     (case context_parts (take 3 relevant_docs) of
        Inl e \<Rightarrow> Inl e
      | Inr parts \<Rightarrow> Inr (join_blank_line parts))"

definition create_legal_prompt :: "string \<Rightarrow> string \<Rightarrow> string" where
  "create_legal_prompt query context =
     ''Based on Indian legal documents and constitution, please answer the following legal question:''
     @ newline @ newline
     @ ''Query: '' @ query @ newline @ newline
     @ ''Legal Context:'' @ newline
     @ context @ newline @ newline
     @ ''Please provide a clear, accurate response based on Indian law. If the information is insufficient, please mention that additional legal consultation may be required.''
     @ newline @ newline
     @ ''Response:''"

text \<open>\<open>_generate_with_model\<close>: any exception of the model call is caught here.\<close>

definition generate_with_model :: "text_generator \<Rightarrow> string \<Rightarrow> string" where
  "generate_with_model generator prompt =
     (case generator prompt (length (str_split prompt) + 150) of
        Inl e \<Rightarrow> ''Unable to generate response with language model.''
      | Inr generated_text \<Rightarrow> str_strip (str_remove prompt generated_text))"

definition no_information_message :: string where
  "no_information_message =
     ''I couldn't find relevant legal information for your query. Please consult with a legal professional for accurate advice.''"

definition rule_based_header :: string where
  "rule_based_header =
     ''Based on available legal documents, here's what I found regarding your query:''
     @ newline @ newline"

definition educational_disclaimer :: string where
  "educational_disclaimer =
     ''Please note: This information is for educational purposes only. For specific legal advice, consult with a qualified legal professional.''"

text \<open>The loop of \<open>_generate_rule_based_response\<close> from index \<open>i\<close> on.\<close>

fun numbered_excerpts :: "nat \<Rightarrow> retrieved_doc list \<Rightarrow> error + string" where
  "numbered_excerpts i [] = Inr []"
| "numbered_excerpts i (doc # docs) =
     (case content doc of
        None \<Rightarrow> Inl (KeyError ''content'')
      | Some c \<Rightarrow>
          (case numbered_excerpts (i + 1) docs of
             Inl e \<Rightarrow> Inl e
           | Inr rest \<Rightarrow>
               Inr (show_nat (i + 1) @ ''. '' @ take 300 c @ ''...'' @ newline @ newline @ rest)))"

definition generate_rule_based_response :: "string \<Rightarrow> retrieved_doc list \<Rightarrow> error + string" where
  "generate_rule_based_response query relevant_docs =
     (if relevant_docs = [] then Inr no_information_message
      else (case numbered_excerpts 0 (take 2 relevant_docs) of
              Inl e \<Rightarrow> Inl e
            | Inr excerpts \<Rightarrow> Inr (rule_based_header @ excerpts @ educational_disclaimer)))"

definition calculate_confidence :: "retrieved_doc list \<Rightarrow> real" where
  "calculate_confidence relevant_docs =
     (if relevant_docs = [] then 0
      else (let scores = map score_of relevant_docs
            in if scores \<noteq> [] then sum_list scores / real (length scores) else 0))"

text \<open>\<open>[doc['metadata'] for doc in relevant_docs]\<close>\<close>

fun collect_sources :: "retrieved_doc list \<Rightarrow> error + metadata list" where
  "collect_sources [] = Inr []"
| "collect_sources (doc # docs) =
     (case metadata doc of
        None \<Rightarrow> Inl (KeyError ''metadata'')
      | Some meta \<Rightarrow>
          (case collect_sources docs of
             Inl e \<Rightarrow> Inl e
           | Inr metas \<Rightarrow> Inr (meta # metas)))"

definition degraded_answer :: generated_answer where
  "degraded_answer =
     \<lparr> response = ''I apologize, but I'm unable to process your legal query at the moment. Please try again later.'',
       sources = [],
       confidence = 0 \<rparr>"

text \<open>The body of the \<open>try\<close> block of \<open>generate_legal_response\<close>.\<close>

definition try_generate ::
  "text_generator option \<Rightarrow> string \<Rightarrow> retrieved_doc list \<Rightarrow> error + generated_answer" where
  "try_generate generator query relevant_docs =
     (case create_context relevant_docs of
        Inl e \<Rightarrow> Inl e
      | Inr context \<Rightarrow>
          (let prompt = create_legal_prompt query context
           in case (case generator of
                      Some g \<Rightarrow> Inr (generate_with_model g prompt)
                    | None \<Rightarrow> generate_rule_based_response query relevant_docs) of
                Inl e \<Rightarrow> Inl e
              | Inr response_text \<Rightarrow>
                  (case collect_sources relevant_docs of
                     Inl e \<Rightarrow> Inl e
                   | Inr metas \<Rightarrow>
                       Inr \<lparr> response = response_text,
                             sources = metas,
                             confidence = calculate_confidence relevant_docs \<rparr>)))"

definition generate_legal_response ::
  "text_generator option \<Rightarrow> string \<Rightarrow> retrieved_doc list \<Rightarrow> generated_answer" where
  "generate_legal_response generator query relevant_docs =
     (case try_generate generator query relevant_docs of
        Inl e \<Rightarrow> degraded_answer
      | Inr answer \<Rightarrow> answer)"

section \<open>Domain tagging\<close>

lemma max_item_snoc:
  "max_item b (xs @ [x]) = (let m = max_item b xs in if snd m < snd x then x else m)"
  by (induction xs arbitrary: b) (simp_all add: Let_def)

lemma max_item_first_max:
  "\<exists>i < length (b # xs). max_item b xs = (b # xs) ! i
      \<and> (\<forall>j < length (b # xs). snd ((b # xs) ! j) \<le> snd ((b # xs) ! i))
      \<and> (\<forall>j < i. snd ((b # xs) ! j) < snd ((b # xs) ! i))"
proof (induction xs rule: rev_induct)
  case Nil
  show ?case by simp
next
  case (snoc x xs)
  then obtain i where i: "i < length (b # xs)" "max_item b xs = (b # xs) ! i"
    and le: "\<forall>j < length (b # xs). snd ((b # xs) ! j) \<le> snd ((b # xs) ! i)"
    and lt: "\<forall>j < i. snd ((b # xs) ! j) < snd ((b # xs) ! i)"
    by blast
  let ?l = "b # xs" and ?l' = "b # xs @ [x]"
  have nth_old: "\<And>j. j < length ?l \<Longrightarrow> ?l' ! j = ?l ! j"
    by (metis append_Cons nth_append)
  have nth_new: "?l' ! length ?l = x"
    by (metis append_Cons nth_append_length)
  show ?case
  proof (cases "snd (max_item b xs) < snd x")
    case True
    have "max_item b (xs @ [x]) = ?l' ! length ?l"
      using True nth_new by (simp add: max_item_snoc)
    moreover have "\<forall>j < length ?l'. snd (?l' ! j) \<le> snd (?l' ! length ?l)"
    proof (intro allI impI)
      fix j assume "j < length ?l'"
      then consider "j < length ?l" | "j = length ?l" by fastforce
      then show "snd (?l' ! j) \<le> snd (?l' ! length ?l)"
      proof cases
        case 1
        then have "snd (?l ! j) \<le> snd (?l ! i)" using le by blast
        then show ?thesis using True i(2) nth_old [OF 1] nth_new by simp
      next
        case 2
        then show ?thesis by simp
      qed
    qed
    moreover have "\<forall>j < length ?l. snd (?l' ! j) < snd (?l' ! length ?l)"
    proof (intro allI impI)
      fix j assume j: "j < length ?l"
      then have "snd (?l ! j) \<le> snd (?l ! i)" using le by blast
      then show "snd (?l' ! j) < snd (?l' ! length ?l)"
        using True i(2) nth_old [OF j] nth_new by simp
    qed
    ultimately show ?thesis
      by (intro exI [of _ "length ?l"]) simp
  next
    case False
    have "max_item b (xs @ [x]) = ?l' ! i"
      using False i nth_old [of i] by (simp add: max_item_snoc)
    moreover have "\<forall>j < length ?l'. snd (?l' ! j) \<le> snd (?l' ! i)"
    proof (intro allI impI)
      fix j assume "j < length ?l'"
      then consider "j < length ?l" | "j = length ?l" by fastforce
      then show "snd (?l' ! j) \<le> snd (?l' ! i)"
      proof cases
        case 1
        then show ?thesis using le nth_old [OF 1] nth_old [OF i(1)] by simp
      next
        case 2
        then show ?thesis using False i(2) nth_old [OF i(1)] nth_new by simp
      qed
    qed
    moreover have "\<forall>j < i. snd (?l' ! j) < snd (?l' ! i)"
    proof (intro allI impI)
      fix j assume j: "j < i"
      then have "j < length ?l" using i(1) by simp
      then show "snd (?l' ! j) < snd (?l' ! i)"
        using lt j nth_old [of j] nth_old [OF i(1)] by simp
    qed
    ultimately show ?thesis using i(1)
      by (intro exI [of _ i]) simp
  qed
qed

lemma keyword_score_matched:
  assumes "distinct keywords"
  shows "keyword_score keywords (str_lower text) = matched_keywords keywords text"
proof -
  let ?P = "\<lambda>keyword. str_contains keyword (str_lower text)"
  have "keyword_score keywords (str_lower text) = length (filter ?P keywords)"
    by (simp add: keyword_score_def sum_list_triv)
  also have "\<dots> = card (set (filter ?P keywords))"
    using distinct_card [OF distinct_filter [OF assms, of ?P]] by simp
  also have "set (filter ?P keywords) = {keyword \<in> set keywords. ?P keyword}"
    by auto
  finally show ?thesis by (simp add: matched_keywords_def)
qed

lemma distinct_keywords:
  "distinct constitutional_keywords" "distinct criminal_keywords" "distinct civil_keywords"
  "distinct family_keywords" "distinct corporate_keywords"
  by (simp_all add: constitutional_keywords_def criminal_keywords_def civil_keywords_def
      family_keywords_def corporate_keywords_def)

lemma domain_scores_matched:
  "domain_scores (str_lower text) =
     map (\<lambda>(d, keywords). (d, matched_keywords keywords text)) domain_keywords"
  by (simp add: domain_scores_def domain_keywords_def keyword_score_matched distinct_keywords)

lemma length_domain_keywords: "length domain_keywords = 5"
  by (simp add: domain_keywords_def)

lemma domain_names:
  "distinct (map fst domain_keywords)" "''general'' \<notin> set (map fst domain_keywords)"
  by (simp_all add: domain_keywords_def)

text \<open>
  C1, amended: the count of a domain is the number of its keywords that occur at least
  once, in any letter case, as a substring of the text. The tag is \<open>general\<close> exactly
  when all five counts are zero, and it is a given domain exactly when that domain's count
  is nonzero, greater than the count of every domain before it in the order
  constitutional, criminal, civil, family, corporate, and at least the count of every
  domain. The tag is a function of the text alone.
\<close>

theorem identify_legal_domain_rule:
  "(identify_legal_domain text = ''general''
      \<longleftrightarrow> (\<forall>i < length domain_keywords. domain_count i text = 0))
   \<and> (\<forall>i < length domain_keywords.
        identify_legal_domain text = fst (domain_keywords ! i)
          \<longleftrightarrow> 0 < domain_count i text
              \<and> (\<forall>j < i. domain_count j text < domain_count i text)
              \<and> (\<forall>j < length domain_keywords. domain_count j text \<le> domain_count i text))"
proof -
  let ?n = "length domain_keywords"
  let ?l = "domain_scores (str_lower text)"
  have len: "length ?l = ?n" by (simp add: domain_scores_matched)
  have item: "?l ! j = (fst (domain_keywords ! j), domain_count j text)" if "j < ?n" for j
    using that by (simp add: domain_scores_matched domain_count_def case_prod_unfold)
  have "?l \<noteq> []" by (simp add: domain_scores_def)
  then have split: "hd ?l # tl ?l = ?l" by simp
  obtain i where i: "i < ?n" and best: "max_item (hd ?l) (tl ?l) = ?l ! i"
    and le: "\<forall>j < ?n. snd (?l ! j) \<le> snd (?l ! i)"
    and lt: "\<forall>j < i. snd (?l ! j) < snd (?l ! i)"
    using max_item_first_max [of "hd ?l" "tl ?l"] unfolding split len by blast
  have le': "domain_count j text \<le> domain_count i text" if "j < ?n" for j
    using le that i by (simp add: item)
  have lt': "domain_count j text < domain_count i text" if "j < i" for j
    using lt that i by (simp add: item)
  have tag: "identify_legal_domain text =
      (if 0 < domain_count i text then fst (domain_keywords ! i) else ''general'')"
    using i by (simp add: identify_legal_domain_def Let_def best item)
  have not_general: "fst (domain_keywords ! j) \<noteq> ''general''" if "j < ?n" for j
    using that domain_names(2) by (metis length_map nth_map nth_mem)
  have name_inj: "fst (domain_keywords ! j) = fst (domain_keywords ! k) \<longleftrightarrow> j = k"
    if "j < ?n" "k < ?n" for j k
    using that domain_names(1) by (metis length_map nth_map nth_eq_iff_index_eq)
  have general: "identify_legal_domain text = ''general''
      \<longleftrightarrow> (\<forall>j < ?n. domain_count j text = 0)"
  proof (cases "0 < domain_count i text")
    case True
    then show ?thesis using tag i not_general [OF i] by auto
  next
    case False
    then have "domain_count j text = 0" if "j < ?n" for j
      using le' [OF that] by simp
    then show ?thesis using tag False by simp
  qed
  have each: "identify_legal_domain text = fst (domain_keywords ! k)
      \<longleftrightarrow> 0 < domain_count k text
          \<and> (\<forall>j < k. domain_count j text < domain_count k text)
          \<and> (\<forall>j < ?n. domain_count j text \<le> domain_count k text)"
    (is "?tagged \<longleftrightarrow> ?first_best") if k: "k < ?n" for k
  proof
    assume ?tagged
    then have "0 < domain_count i text" and "k = i"
      using tag not_general [OF k] name_inj [OF i k] by (auto split: if_splits)
    then show ?first_best using le' lt' by simp
  next
    assume fb: ?first_best
    have "\<not> k < i" using fb lt' [of k] le' i by (meson leD)
    moreover have "\<not> i < k" using fb le' [OF k] by (meson leD)
    ultimately have "k = i" by simp
    then show ?tagged using fb tag by simp
  qed
  show ?thesis using general each by blast
qed


lemma domain_count_scores:
  "j < 5 \<Longrightarrow> domain_count j text = snd (domain_scores (str_lower text) ! j)"
  by (simp add: domain_scores_matched domain_count_def case_prod_unfold length_domain_keywords)

theorem identify_legal_domain_rule_witness:
  "identify_legal_domain ''The accused was granted Bail after arrest'' = ''criminal''
   \<and> domain_count 0 ''The accused was granted Bail after arrest'' = 0
   \<and> domain_count 1 ''The accused was granted Bail after arrest'' = 2
   \<and> domain_count 2 ''The accused was granted Bail after arrest'' = 0
   \<and> domain_count 3 ''The accused was granted Bail after arrest'' = 0
   \<and> domain_count 4 ''The accused was granted Bail after arrest'' = 0"
proof -
  let ?t = "''The accused was granted Bail after arrest''"
  have scores: "domain_scores (str_lower ?t) =
      [(''constitutional'', 0), (''criminal'', 2), (''civil'', 0), (''family'', 0),
       (''corporate'', 0)]"
    by code_simp
  have c: "domain_count 0 ?t = 0" "domain_count 1 ?t = 2" "domain_count 2 ?t = 0"
    "domain_count 3 ?t = 0" "domain_count 4 ?t = 0"
    by (simp_all add: domain_count_scores scores)
  have all: "(\<forall>j < length domain_keywords. P j) \<longleftrightarrow> P 0 \<and> P 1 \<and> P 2 \<and> P 3 \<and> P 4" for P
    by (simp add: length_domain_keywords numeral_eq_Suc less_Suc_eq) blast
  have name: "fst (domain_keywords ! 1) = ''criminal''"
    by (simp add: domain_keywords_def)
  have c1: "domain_count (Suc 0) ?t = 2" using c(2) by simp
  have "identify_legal_domain ?t = fst (domain_keywords ! 1)"
    using identify_legal_domain_rule [of ?t] by (simp add: all c c1)
  then show ?thesis using c name by simp
qed

text \<open>
  C1, as the claim words it: the tag is the domain whose keywords have the highest
  occurrence count. The source does not count occurrences. In the text below
  \<open>article\<close> occurs three times and two criminal-law keywords occur once each: the
  constitutional set has the most occurrences, and the source answers \<open>criminal\<close>.
\<close>

theorem identify_legal_domain_occurrences_counterexample:
  "identify_legal_domain ''article article article bail offence'' = ''criminal''
   \<and> occurrence_tag ''article article article bail offence'' = ''constitutional''"
  by code_simp

section \<open>Chunking\<close>

subsection \<open>Splitting into sentences\<close>

lemma split_sentences_nonempty: "split_sentences s \<noteq> []"
  by (induction s rule: split_sentences.induct) (auto split: list.splits)

lemma join_sentences_Cons:
  "ss \<noteq> [] \<Longrightarrow> join_sentences (s # ss) = s @ ''. '' @ join_sentences ss"
  by (cases ss) simp_all

lemma join_split_sentences: "join_sentences (split_sentences s) = s"
proof (induction s rule: split_sentences.induct)
  case 1
  show ?case by simp
next
  case (2 c)
  show ?case by simp
next
  case (3 c d cs)
  show ?case
  proof (cases "c = CHR ''.'' \<and> d = CHR '' ''")
    case True
    then show ?thesis
      using 3 split_sentences_nonempty [of cs] by (simp add: join_sentences_Cons)
  next
    case False
    obtain s ss where sp: "split_sentences (d # cs) = s # ss"
      using split_sentences_nonempty [of "d # cs"] by (cases "split_sentences (d # cs)") auto
    have "split_sentences (c # d # cs) = (c # s) # ss"
      using False sp by auto
    moreover have "join_sentences ((c # s) # ss) = c # join_sentences (s # ss)"
      by (cases ss) simp_all
    moreover have "join_sentences (s # ss) = d # cs"
      using 3(2) [OF False] sp by simp
    ultimately show ?thesis by simp
  qed
qed

subsection \<open>A text below the threshold\<close>

lemma chunk_loop_no_overflow:
  assumes "ss \<noteq> []"
    and "int (length current_chunk + length (join_sentences ss)) \<le> chunk_size p"
  shows "chunk_loop p ss (chunks, current_chunk) =
           (chunks, current_chunk @ join_sentences ss @ ''. '')"
  using assms
proof (induction ss arbitrary: current_chunk)
  case Nil
  then show ?case by simp
next
  case (Cons s ss)
  show ?case
  proof (cases ss)
    case Nil
    then show ?thesis using Cons.prems by simp
  next
    case (Cons t ts)
    have js: "join_sentences (s # ss) = s @ ''. '' @ join_sentences ss"
      using Cons by simp
    have fit: "\<not> int (length (current_chunk @ s)) > chunk_size p"
      using Cons.prems(2) js by simp
    have "int (length (current_chunk @ s @ ''. '') + length (join_sentences ss)) \<le> chunk_size p"
      using Cons.prems(2) js by simp
    then have "chunk_loop p ss (chunks, current_chunk @ s @ ''. '') =
        (chunks, (current_chunk @ s @ ''. '') @ join_sentences ss @ ''. '')"
      using Cons.IH [of "current_chunk @ s @ ''. ''"] Cons by simp
    then show ?thesis using fit js by simp
  qed
qed

lemma str_strip_period:
  assumes "str_strip t = t"
  shows "str_strip (t @ ''. '') = t @ ''.''"
proof -
  have sp: "is_space CHR '' ''" and np: "\<not> is_space CHR ''.''"
    by (simp_all add: is_space_def)
  have front: "dropWhile is_space t = t"
  proof (cases t)
    case Nil
    then show ?thesis by simp
  next
    case (Cons c cs)
    have "\<not> is_space c"
    proof
      assume c: "is_space c"
      have "length (str_strip t) \<le> length (dropWhile is_space t)"
        unfolding str_strip_def using length_dropWhile_le [of is_space "rev (dropWhile is_space t)"]
        by simp
      also have "\<dots> \<le> length cs"
        using c Cons by (simp add: length_dropWhile_le)
      finally show False using assms Cons by simp
    qed
    then show ?thesis using Cons by simp
  qed
  have "dropWhile is_space (t @ ''. '') = t @ ''. ''"
  proof (cases t)
    case Nil
    then show ?thesis using np by simp
  next
    case (Cons c cs)
    then have "\<not> is_space c" using front by (metis hd_dropWhile list.sel(1) list.distinct(1))
    then show ?thesis using Cons by simp
  qed
  then show ?thesis using sp np by (simp add: str_strip_def)
qed

lemma str_strip_idem: "str_strip (str_strip s) = str_strip s"
proof -
  let ?d = "dropWhile is_space s"
  let ?r = "rev (dropWhile is_space (rev ?d))"
  have "dropWhile is_space ?r = ?r"
  proof (cases "?r")
    case Nil
    then show ?thesis by (metis dropWhile.simps(1))
  next
    case (Cons c cs)
    have eq: "?d = ?r @ rev (takeWhile is_space (rev ?d))"
      by (metis rev_append rev_rev_ident takeWhile_dropWhile_id)
    then have "hd ?d = c" using Cons by (metis hd_append2 list.sel(1) list.distinct(1))
    moreover have "?d \<noteq> []" using eq Cons by (metis append_is_Nil_conv list.distinct(1))
    ultimately have "\<not> is_space c" by (metis hd_dropWhile)
    then show ?thesis using Cons by simp
  qed
  moreover have "dropWhile is_space (rev ?r) = rev ?r"
    by (simp add: dropWhile_idem)
  ultimately show ?thesis by (simp add: str_strip_def)
qed

lemma create_chunks_short:
  assumes "int (length text) \<le> chunk_size p"
  shows "create_chunks p text = [str_strip (text @ ''. '')]"
proof -
  have "chunk_loop p (split_sentences text) ([], []) = ([], text @ ''. '')"
    using chunk_loop_no_overflow [of "split_sentences text" "[]" p "[]"] assms
    by (simp add: split_sentences_nonempty join_split_sentences)
  moreover have "str_strip (text @ ''. '') \<noteq> []"
  proof -
    have np: "\<not> is_space CHR ''.''" by (simp add: is_space_def)
    have sp: "is_space CHR '' ''" by (simp add: is_space_def)
    have "dropWhile is_space (text @ ''. '') \<noteq> []"
      using np by (metis dropWhile_eq_Nil_conv in_set_conv_decomp)
    then obtain u where u: "dropWhile is_space (text @ ''. '') = u @ ''. ''"
      by (metis dropWhile_append dropWhile.simps(2) np append_Nil)
    show ?thesis using u np sp by (simp add: str_strip_def)
  qed
  ultimately show ?thesis by (simp add: create_chunks_def)
qed

lemma create_chunks_cleaned:
  assumes "int (length (clean_text text)) < chunk_size p"
  shows "create_chunks p (clean_text text) = [clean_text text @ ''.'']"
proof -
  have "str_strip (clean_text text) = clean_text text"
    by (simp add: clean_text_def Let_def str_strip_idem)
  then show ?thesis using create_chunks_short [of "clean_text text" p] assms
    by (simp add: str_strip_period)
qed

text \<open>
  C2: a cleaned text shorter than the chunk size gives exactly one chunk, and the source
  has appended a period to it: the loop adds period-space behind every sentence, the
  last one included, and only the space is stripped. For the cleaned text
  \<open>Hello world.\<close> the single chunk is \<open>Hello world..\<close>, not the cleaned text.
\<close>

theorem create_chunks_short_text_trailing_period:
  "clean_text ''Hello world.'' = ''Hello world.''
   \<and> create_chunks default_processor (clean_text ''Hello world.'') = [''Hello world..'']"
  by code_simp

subsection \<open>Words\<close>

lemma str_split_Nil: "dropWhile is_space s = [] \<Longrightarrow> str_split s = []"
  by (subst str_split.simps) (simp only: list.case)

lemma str_split_Cons:
  "dropWhile is_space s = c # cs \<Longrightarrow>
     str_split s = takeWhile (\<lambda>x. \<not> is_space x) (c # cs)
       # str_split (dropWhile (\<lambda>x. \<not> is_space x) (c # cs))"
  by (subst str_split.simps) (simp only: list.case)

lemma str_split_dropWhile: "str_split (dropWhile is_space s) = str_split s"
proof (cases "dropWhile is_space s")
  case Nil
  then show ?thesis by (simp add: str_split_Nil)
next
  case (Cons c cs)
  then have "dropWhile is_space (dropWhile is_space s) = c # cs"
    by (metis dropWhile_idem)
  then have "str_split (dropWhile is_space s) = takeWhile (\<lambda>x. \<not> is_space x) (c # cs)
       # str_split (dropWhile (\<lambda>x. \<not> is_space x) (c # cs))"
    by (rule str_split_Cons)
  then show ?thesis using str_split_Cons [OF Cons] by simp
qed

lemma str_split_spaces: "\<forall>c \<in> set s. is_space c \<Longrightarrow> str_split s = []"
  by (rule str_split_Nil) simp

lemma str_split_word:
  assumes "w \<noteq> []" and "\<forall>c \<in> set w. \<not> is_space c" and "s = [] \<or> is_space (hd s)"
  shows "str_split (w @ s) = w # str_split s"
proof -
  obtain c cs where w: "w = c # cs" using assms(1) by (cases w) auto
  have d: "dropWhile is_space (w @ s) = w @ s"
    using assms(2) w by simp
  have t: "takeWhile (\<lambda>x. \<not> is_space x) (w @ s) = w"
    using assms(2,3) by (cases s) (simp_all add: takeWhile_append2)
  have r: "dropWhile (\<lambda>x. \<not> is_space x) (w @ s) = s"
    using assms(2,3) by (cases s) (simp_all add: dropWhile_append2)
  have "str_split (w @ s) =
      takeWhile (\<lambda>x. \<not> is_space x) (w @ s) # str_split (dropWhile (\<lambda>x. \<not> is_space x) (w @ s))"
    using d str_split_Cons [of "w @ s" c "cs @ s"] by (simp add: w)
  then show ?thesis by (simp only: t r)
qed

lemma str_split_wordlike:
  "w \<in> set (str_split s) \<Longrightarrow> w \<noteq> [] \<and> (\<forall>c \<in> set w. \<not> is_space c)"
proof (induction s rule: str_split.induct)
  case (1 s)
  show ?case
  proof (cases "dropWhile is_space s")
    case Nil
    then have "str_split s = []" by (rule str_split_Nil)
    then show ?thesis using 1(2) by simp
  next
    case (Cons c cs)
    have nc: "\<not> is_space c" using Cons by (metis hd_dropWhile list.sel(1) list.distinct(1))
    have eq: "str_split s = takeWhile (\<lambda>x. \<not> is_space x) (c # cs)
        # str_split (dropWhile (\<lambda>x. \<not> is_space x) (c # cs))"
      using Cons by (rule str_split_Cons)
    show ?thesis
    proof (cases "w = takeWhile (\<lambda>x. \<not> is_space x) (c # cs)")
      case True
      have "takeWhile (\<lambda>x. \<not> is_space x) (c # cs) = c # takeWhile (\<lambda>x. \<not> is_space x) cs"
        using nc by simp
      then have "w \<noteq> []" using True by simp
      moreover have "\<forall>x \<in> set w. \<not> is_space x"
        unfolding True
      proof
        fix x assume a: "x \<in> set (takeWhile (\<lambda>x. \<not> is_space x) (c # cs))"
        from set_takeWhileD [OF a] show "\<not> is_space x" by blast
      qed
      ultimately show ?thesis by blast
    next
      case False
      have "w \<in> set (takeWhile (\<lambda>x. \<not> is_space x) (c # cs)
          # str_split (dropWhile (\<lambda>x. \<not> is_space x) (c # cs)))"
        using 1(2) unfolding eq .
      then have "w \<in> set (str_split (dropWhile (\<lambda>x. \<not> is_space x) (c # cs)))"
        using False by (meson set_ConsD)
      then show ?thesis by (rule 1(1) [OF Cons])
    qed
  qed
qed

lemma str_split_trailing:
  "\<forall>c \<in> set sps. is_space c \<Longrightarrow> str_split (s @ sps) = str_split s"
proof (induction s rule: str_split.induct)
  case (1 s)
  show ?case
  proof (cases "dropWhile is_space s")
    case Nil
    then have "\<forall>c \<in> set (s @ sps). is_space c"
      using 1(2) by (auto simp: dropWhile_eq_Nil_conv)
    then have "str_split (s @ sps) = []" by (rule str_split_spaces)
    moreover have "str_split s = []" using Nil by (rule str_split_Nil)
    ultimately show ?thesis by simp
  next
    case (Cons c cs)
    let ?ns = "\<lambda>x. \<not> is_space x"
    obtain x where x: "x \<in> set s" "\<not> is_space x"
      using Cons by (metis dropWhile_eq_Nil_conv list.distinct(1))
    have d: "dropWhile is_space (s @ sps) = (c # cs) @ sps"
      using dropWhile_append1 [of x s is_space sps] x Cons by simp
    have t: "takeWhile ?ns ((c # cs) @ sps) = takeWhile ?ns (c # cs)"
    proof (cases "\<forall>x \<in> set (c # cs). ?ns x")
      case True
      have e: "takeWhile ?ns sps = []" using 1(2) by (cases sps) auto
      have "takeWhile ?ns ((c # cs) @ sps) = (c # cs) @ takeWhile ?ns sps"
        using True by (intro takeWhile_append2) blast
      moreover have "takeWhile ?ns (c # cs) = c # cs"
        using True by (metis takeWhile_eq_all_conv)
      ultimately show ?thesis using e by (simp only: append_Nil2)
    next
      case False
      then obtain y where "y \<in> set (c # cs)" "\<not> ?ns y" by blast
      then show ?thesis by (rule takeWhile_append1)
    qed
    have r: "dropWhile ?ns ((c # cs) @ sps) = dropWhile ?ns (c # cs) @ sps"
    proof (cases "\<forall>x \<in> set (c # cs). ?ns x")
      case True
      have e: "dropWhile ?ns sps = sps" using 1(2) by (cases sps) auto
      have "dropWhile ?ns ((c # cs) @ sps) = dropWhile ?ns sps"
        using True by (intro dropWhile_append2) blast
      moreover have "dropWhile ?ns (c # cs) = []"
        using True by (metis dropWhile_eq_Nil_conv)
      ultimately show ?thesis using e by (simp only: append_Nil)
    next
      case False
      then obtain x where "x \<in> set (c # cs)" "\<not> ?ns x" by blast
      then show ?thesis by (rule dropWhile_append1)
    qed
    have "str_split (s @ sps) = takeWhile ?ns (c # cs) # str_split (dropWhile ?ns (c # cs) @ sps)"
    proof -
      have d': "dropWhile is_space (s @ sps) = c # (cs @ sps)" using d by (simp only: append_Cons)
      have t': "takeWhile ?ns (c # (cs @ sps)) = takeWhile ?ns (c # cs)"
        using t by (simp only: append_Cons)
      have r': "dropWhile ?ns (c # (cs @ sps)) = dropWhile ?ns (c # cs) @ sps"
        using r by (simp only: append_Cons)
      show ?thesis using str_split_Cons [OF d'] by (simp only: t' r')
    qed
    also have "\<dots> = takeWhile ?ns (c # cs) # str_split (dropWhile ?ns (c # cs))"
      using 1(1) [OF Cons 1(2)] by simp
    also have "\<dots> = str_split s"
      using str_split_Cons [OF Cons] by simp
    finally show ?thesis .
  qed
qed

lemma str_split_strip: "str_split (str_strip s) = str_split s"
proof -
  let ?d = "dropWhile is_space s"
  have "?d = str_strip s @ rev (takeWhile is_space (rev ?d))"
    unfolding str_strip_def by (metis rev_append rev_rev_ident takeWhile_dropWhile_id)
  moreover have "\<forall>c \<in> set (rev (takeWhile is_space (rev ?d))). is_space c"
    by (auto dest: set_takeWhileD)
  ultimately have "str_split ?d = str_split (str_strip s)"
    using str_split_trailing by metis
  then show ?thesis by (simp add: str_split_dropWhile)
qed

lemma str_split_space: "str_split (CHR '' '' # s) = str_split s"
proof -
  have "str_split (CHR '' '' # s) = str_split (dropWhile is_space (CHR '' '' # s))"
    by (rule str_split_dropWhile [symmetric])
  also have "dropWhile is_space (CHR '' '' # s) = dropWhile is_space s"
    by (simp add: is_space_def)
  also have "str_split (dropWhile is_space s) = str_split s"
    by (rule str_split_dropWhile)
  finally show ?thesis .
qed

lemma str_split_word_space:
  assumes "w \<noteq> []" and "\<forall>c \<in> set w. \<not> is_space c"
  shows "str_split (w @ CHR '' '' # s) = w # str_split s"
proof -
  have "is_space (hd (CHR '' '' # s))" by (simp add: is_space_def)
  then have "str_split (w @ CHR '' '' # s) = w # str_split (CHR '' '' # s)"
    using assms by (intro str_split_word) blast+
  then show ?thesis by (simp only: str_split_space)
qed

lemma str_split_join:
  assumes "\<forall>w \<in> set ws. w \<noteq> [] \<and> (\<forall>c \<in> set w. \<not> is_space c)"
  shows "str_split (join_space ws @ '' '' @ rest) = ws @ str_split rest"
  using assms
proof (induction ws rule: join_space.induct)
  case 1
  show ?case using str_split_space [of rest] by simp
next
  case (2 w)
  then have "w \<noteq> []" "\<forall>c \<in> set w. \<not> is_space c" by simp_all
  then show ?case using str_split_word_space [of w rest] by simp
next
  case (3 w v ws)
  have w: "w \<noteq> []" "\<forall>c \<in> set w. \<not> is_space c" using 3(2) by simp_all
  have rest: "\<forall>u \<in> set (v # ws). u \<noteq> [] \<and> (\<forall>c \<in> set u. \<not> is_space c)"
    using 3(2) by simp
  have ih: "str_split (join_space (v # ws) @ '' '' @ rest) = (v # ws) @ str_split rest"
    using 3(1) [OF rest] .
  have "join_space (w # v # ws) @ '' '' @ rest
      = w @ CHR '' '' # (join_space (v # ws) @ '' '' @ rest)"
    by simp
  then have "str_split (join_space (w # v # ws) @ '' '' @ rest)
      = w # str_split (join_space (v # ws) @ '' '' @ rest)"
    using str_split_word_space [OF w] by (simp only:)
  then show ?case using ih by simp
qed

subsection \<open>The overlap carried into the next chunk\<close>

lemma slice_last_positive:
  "0 < n \<Longrightarrow> slice_last n xs = drop (length xs - nat n) xs"
  by (simp add: slice_last_def Let_def max_def nat_diff_distrib') 

lemma slice_last_length: "0 < n \<Longrightarrow> int (length (slice_last n xs)) \<le> n"
  by (simp add: slice_last_positive)

lemma slice_last_suffix: "suffix (slice_last n xs) xs"
  by (simp add: slice_last_def Let_def suffix_drop)

lemma slice_last_subset: "set (slice_last n xs) \<subseteq> set xs"
  by (simp add: slice_last_def Let_def set_drop_subset)

lemma overlap_carried_step:
  assumes "0 < chunk_overlap p"
    and "current_chunk = join_space (slice_last (chunk_overlap p) (str_split a)) @ '' '' @ rest"
  shows "overlap_carried p a (str_strip current_chunk)"
proof -
  let ?wa = "str_split a"
  let ?m = "min (nat (chunk_overlap p)) (length ?wa)"
  let ?ow = "slice_last (chunk_overlap p) ?wa"
  have ow: "?ow = drop (length ?wa - ?m) ?wa"
    using assms(1) by (simp add: slice_last_positive min_def)
  have len: "length ?ow = ?m"
    unfolding ow by simp
  have "\<forall>w \<in> set ?ow. w \<noteq> [] \<and> (\<forall>c \<in> set w. \<not> is_space c)"
    using slice_last_subset [of "chunk_overlap p" ?wa] str_split_wordlike [of _ a]
    by blast
  then have "str_split current_chunk = ?ow @ str_split rest"
    unfolding assms(2) by (rule str_split_join)
  then have wb: "str_split (str_strip current_chunk) = ?ow @ str_split rest"
    by (simp add: str_split_strip)
  have "take ?m (str_split (str_strip current_chunk)) = ?ow"
    unfolding wb using len by simp
  moreover have "?m \<le> length (str_split (str_strip current_chunk))"
    unfolding wb using len by simp
  ultimately show ?thesis
    using ow by (simp add: overlap_carried_def shares_words_def Let_def)
qed

lemma chunk_loop_overlap:
  assumes "0 < chunk_overlap p"
    and "successively (overlap_carried p) chunks"
    and "carries p chunks current_chunk"
    and "chunk_loop p sentences (chunks, current_chunk) = (chunks', current_chunk')"
  shows "successively (overlap_carried p) chunks' \<and> carries p chunks' current_chunk'"
  using assms(2-4)
proof (induction sentences arbitrary: chunks current_chunk)
  case Nil
  then show ?case by simp
next
  case (Cons sentence sentences)
  show ?case
  proof (cases "int (length (current_chunk @ sentence)) > chunk_size p \<and> current_chunk \<noteq> []")
    case True
    let ?chunks = "chunks @ [str_strip current_chunk]"
    let ?next = "join_space (slice_last (chunk_overlap p) (str_split current_chunk))
                   @ '' '' @ sentence"
    have loop: "chunk_loop p sentences (?chunks, ?next) = (chunks', current_chunk')"
      using Cons.prems(3) True by (simp add: Let_def)
    have link: "chunks = [] \<or> overlap_carried p (last chunks) (str_strip current_chunk)"
      using Cons.prems(2) overlap_carried_step [OF assms(1)] unfolding carries_def by blast
    have "successively (overlap_carried p) ?chunks"
      using Cons.prems(1) link by (simp add: successively_append_iff)
    moreover have "carries p ?chunks ?next"
      unfolding carries_def by (simp add: str_split_strip)
    ultimately show ?thesis using Cons.IH loop by blast
  next
    case False
    have loop: "chunk_loop p sentences (chunks, current_chunk @ sentence @ ''. '')
        = (chunks', current_chunk')"
      using Cons.prems(3) False by auto
    have "carries p chunks (current_chunk @ sentence @ ''. '')"
      using Cons.prems(2) unfolding carries_def by auto
    then show ?thesis using Cons.IH Cons.prems(1) loop by blast
  qed
qed

lemma create_chunks_overlap:
  assumes "0 < chunk_overlap p"
  shows "successively (overlap_carried p) (create_chunks p text)"
proof -
  obtain chunks current_chunk
    where loop: "chunk_loop p (split_sentences text) ([], []) = (chunks, current_chunk)"
    by (cases "chunk_loop p (split_sentences text) ([], [])") auto
  have inv: "successively (overlap_carried p) chunks" "carries p chunks current_chunk"
    using chunk_loop_overlap [OF assms _ _ loop] by (simp_all add: carries_def)
  have "chunks = [] \<or> overlap_carried p (last chunks) (str_strip current_chunk)"
    using inv(2) overlap_carried_step [OF assms] unfolding carries_def by blast
  then have "successively (overlap_carried p) (chunks @ [str_strip current_chunk])"
    using inv(1) by (simp add: successively_append_iff)
  then show ?thesis using inv(1) loop by (simp add: create_chunks_def)
qed

subsection \<open>Chunk numbering\<close>

lemma process_text_file_contents:
  "map chunk_content (process_text_file p read_file file_path) =
     (case read_file file_path of
        Inl e \<Rightarrow> []
      | Inr full_text \<Rightarrow> create_chunks p (clean_text full_text))"
  by (auto simp: process_text_file_def Let_def case_prod_unfold map_snd_enumerate comp_def
      split: sum.splits)

lemma process_text_file_ids:
  "map (\<lambda>c. chunk_id (chunk_meta c)) (process_text_file p read_file file_path) =
     [0 ..< length (process_text_file p read_file file_path)]"
  by (auto simp: process_text_file_def Let_def case_prod_unfold map_fst_enumerate comp_def
      split: sum.splits)

lemma process_text_file_totals:
  "c \<in> set (process_text_file p read_file file_path) \<Longrightarrow>
     total_chunks (chunk_meta c) = length (process_text_file p read_file file_path)"
  by (auto simp: process_text_file_def Let_def case_prod_unfold split: sum.splits)

subsection \<open>Texts joined from words\<close>

lemma char_classes:
  "\<not> is_space CHR ''x''" "\<not> is_space CHR ''.''" "is_space CHR '' ''"
  "legal_char CHR ''x''" "legal_char CHR ''.''" "legal_char CHR '' ''"
  by (simp_all add: is_space_def legal_char_def is_word_char_def)

lemma join_space_append:
  "ws \<noteq> [] \<Longrightarrow> vs \<noteq> [] \<Longrightarrow> join_space (ws @ vs) = join_space ws @ '' '' @ join_space vs"
proof (induction ws rule: join_space.induct)
  case 1
  then show ?case by simp
next
  case (2 w)
  then obtain v vs' where "vs = v # vs'" by (cases vs) auto
  then show ?case by simp
next
  case (3 w v ws)
  then show ?case by simp
qed

lemma join_space_ends:
  assumes "ws \<noteq> []" and "\<forall>w \<in> set ws. w \<noteq> [] \<and> (\<forall>c \<in> set w. \<not> is_space c)"
  shows "(\<exists>c cs. join_space ws = c # cs \<and> \<not> is_space c)
       \<and> (\<exists>c cs. join_space ws = cs @ [c] \<and> \<not> is_space c)"
  using assms
proof (induction ws rule: join_space.induct)
  case 1
  then show ?case by simp
next
  case (2 w)
  then have w: "w \<noteq> []" "\<forall>c \<in> set w. \<not> is_space c" by simp_all
  obtain c cs where c: "w = c # cs" using w(1) by (cases w) auto
  obtain b bs where b: "w = bs @ [b]" using w(1) by (cases w rule: rev_cases) auto
  have "\<not> is_space c" using w(2) c by simp
  moreover have "\<not> is_space b" using w(2) b by simp
  moreover have "join_space [w] = c # cs" "join_space [w] = bs @ [b]"
    using c b by simp_all
  ultimately show ?case by blast
next
  case (3 w v ws)
  then have w: "w \<noteq> []" "\<forall>c \<in> set w. \<not> is_space c" by simp_all
  obtain c cs where c: "w = c # cs" using w(1) by (cases w) auto
  have nc: "\<not> is_space c" using w(2) c by simp
  obtain b bs where b: "join_space (v # ws) = bs @ [b]" "\<not> is_space b"
    using 3 by auto
  have "join_space (w # v # ws) = c # (cs @ CHR '' '' # join_space (v # ws))"
    using c by simp
  moreover have "join_space (w # v # ws) = (w @ CHR '' '' # bs) @ [b]"
    using b(1) by simp
  ultimately show ?case using nc b(2) by blast
qed

lemma str_strip_ends:
  assumes "s = c # cs" "\<not> is_space c" "s = bs @ [b]" "\<not> is_space b"
  shows "str_strip s = s"
proof -
  have "dropWhile is_space s = s" using assms(1,2) by simp
  moreover have "dropWhile is_space (rev s) = rev s" using assms(3,4) by simp
  ultimately show ?thesis by (simp add: str_strip_def)
qed

lemma str_strip_join_space:
  assumes "ws \<noteq> []" and "\<forall>w \<in> set ws. w \<noteq> [] \<and> (\<forall>c \<in> set w. \<not> is_space c)"
  shows "str_strip (join_space ws) = join_space ws"
  using join_space_ends [OF assms] str_strip_ends by metis

lemma str_split_join_space:
  assumes "\<forall>w \<in> set ws. w \<noteq> [] \<and> (\<forall>c \<in> set w. \<not> is_space c)"
  shows "str_split (join_space ws) = ws"
proof -
  have "str_split (join_space ws @ '' '' @ []) = ws @ str_split []"
    using assms by (rule str_split_join)
  moreover have "str_split [] = []" by (simp add: str_split_Nil)
  moreover have "str_split (join_space ws @ '' '') = str_split (join_space ws)"
    by (rule str_split_trailing) (simp add: char_classes)
  ultimately show ?thesis by simp
qed

lemma length_repeated_words: "length (repeated_words (Suc n)) = 2 * n + 1"
proof (induction n)
  case 0
  show ?case by (simp add: repeated_words_def)
next
  case (Suc n)
  have "repeated_words (Suc (Suc n)) = ''x'' @ CHR '' '' # repeated_words (Suc n)"
    by (simp add: repeated_words_def)
  then show ?case using Suc by simp
qed

subsection \<open>Cleaning a text of plain words\<close>

lemma collapse_whitespace_word:
  "\<forall>c \<in> set w. \<not> is_space c \<Longrightarrow> collapse_whitespace (w @ s) = w @ collapse_whitespace s"
  by (induction w) simp_all

lemma collapse_whitespace_join_space:
  assumes "\<forall>w \<in> set ws. w \<noteq> [] \<and> (\<forall>c \<in> set w. \<not> is_space c)"
  shows "collapse_whitespace (join_space ws) = join_space ws"
  using assms
proof (induction ws rule: join_space.induct)
  case 1
  show ?case by simp
next
  case (2 w)
  then show ?case using collapse_whitespace_word [of w "[]"] by simp
next
  case (3 w v ws)
  then have w: "\<forall>c \<in> set w. \<not> is_space c"
    and rest: "\<forall>u \<in> set (v # ws). u \<noteq> [] \<and> (\<forall>c \<in> set u. \<not> is_space c)"
    by simp_all
  obtain c cs where first: "join_space (v # ws) = c # cs" "\<not> is_space c"
    using join_space_ends [OF _ rest] by auto
  have "collapse_whitespace (CHR '' '' # join_space (v # ws))
      = CHR '' '' # collapse_whitespace (join_space (v # ws))"
    using first by (simp add: char_classes)
  then have "collapse_whitespace (w @ CHR '' '' # join_space (v # ws))
      = w @ CHR '' '' # join_space (v # ws)"
    using collapse_whitespace_word [OF w] 3(1) [OF rest] by simp
  then show ?case by simp
qed

lemma set_join_space: "set (join_space ws) \<subseteq> (\<Union>w \<in> set ws. set w) \<union> {CHR '' ''}"
  by (induction ws rule: join_space.induct) auto

lemma remove_page_markers_plain:
  "CHR ''-'' \<notin> set s \<Longrightarrow> remove_page_markers s = s"
proof (induction s)
  case Nil
  show ?case by simp
next
  case (Cons c cs)
  then have "c \<noteq> CHR ''-''" by auto
  then have "match_page_marker (c # cs) = None"
    by (simp add: match_page_marker_def)
  then show ?case using Cons by simp
qed

lemma clean_text_join_space:
  assumes "ws \<noteq> []"
    and "\<forall>w \<in> set ws. w \<noteq> [] \<and> (\<forall>c \<in> set w. \<not> is_space c \<and> legal_char c \<and> c \<noteq> CHR ''-'')"
  shows "clean_text (join_space ws) = join_space ws"
proof -
  have wl: "\<forall>w \<in> set ws. w \<noteq> [] \<and> (\<forall>c \<in> set w. \<not> is_space c)"
    using assms(2) by blast
  have c1: "collapse_whitespace (join_space ws) = join_space ws"
    using wl by (rule collapse_whitespace_join_space)
  have "\<forall>c \<in> set (join_space ws). legal_char c \<and> c \<noteq> CHR ''-''"
    using set_join_space [of ws] assms(2) char_classes by auto
  then have c2: "filter legal_char (join_space ws) = join_space ws"
    and "CHR ''-'' \<notin> set (join_space ws)"
    by auto
  then have c4: "remove_page_markers (join_space ws) = join_space ws"
    by (simp add: remove_page_markers_plain)
  have c5: "str_strip (join_space ws) = join_space ws"
    using assms(1) wl by (rule str_strip_join_space)
  show ?thesis by (simp add: clean_text_def Let_def c1 c2 c4 c5)
qed

subsection \<open>Splitting a text of plain sentences\<close>

lemma split_sentences_plain:
  "CHR ''.'' \<notin> set s \<Longrightarrow> split_sentences s = [s]"
proof (induction s rule: split_sentences.induct)
  case 1
  show ?case by simp
next
  case (2 c)
  show ?case by simp
next
  case (3 c d cs)
  then have "c \<noteq> CHR ''.''" "CHR ''.'' \<notin> set (d # cs)" by auto
  then show ?case using 3 by simp
qed

lemma split_sentences_first:
  "CHR ''.'' \<notin> set s \<Longrightarrow> split_sentences (s @ ''. '' @ rest) = s # split_sentences rest"
proof (induction s)
  case Nil
  show ?case by simp
next
  case (Cons c s)
  then have c: "c \<noteq> CHR ''.''" and s: "CHR ''.'' \<notin> set s" by auto
  obtain d cs where tail: "s @ ''. '' @ rest = d # cs"
    by (cases "s @ ''. '' @ rest") auto
  have "split_sentences (d # cs) = s # split_sentences rest"
    using Cons.IH [OF s] tail by simp
  then have "split_sentences (c # d # cs) = (c # s) # split_sentences rest"
    using c by simp
  then show ?case using tail by simp
qed

subsection \<open>Four sentences of three hundred one-letter words\<close>

lemma plain_words:
  "\<forall>w \<in> set (replicate n ''x''). w \<noteq> [] \<and> (\<forall>c \<in> set w. \<not> is_space c)"
  using char_classes by auto

lemma repeated_words_add:
  "0 < n \<Longrightarrow> 0 < m \<Longrightarrow>
     repeated_words (n + m) = repeated_words n @ '' '' @ repeated_words m"
  by (simp add: repeated_words_def replicate_add join_space_append)

lemma repeated_words_period:
  assumes "0 < n" "vs \<noteq> []"
  shows "repeated_words (Suc n) @ ''. '' @ join_space vs
       = join_space (replicate n ''x'' @ [''x.''] @ vs)"
proof -
  have "repeated_words (Suc n) = repeated_words (n + 1)" by simp
  also have "\<dots> = repeated_words n @ '' '' @ repeated_words 1"
    using assms(1) by (intro repeated_words_add) simp_all
  finally have s: "repeated_words (Suc n) = join_space (replicate n ''x'') @ '' x''"
    by (simp add: repeated_words_def)
  have "join_space (replicate n ''x'' @ [''x.''] @ vs)
      = join_space (replicate n ''x'') @ '' '' @ join_space ([''x.''] @ vs)"
    using assms(1) by (intro join_space_append) simp_all
  also have "join_space ([''x.''] @ vs) = ''x.'' @ '' '' @ join_space vs"
    using join_space_append [of "[''x.'']" vs] assms(2) by simp
  finally show ?thesis using s by simp
qed

lemma str_split_sentence_period:
  assumes "0 < n"
  shows "str_split (repeated_words (Suc n) @ ''. '') = replicate n ''x'' @ [''x.'']"
proof -
  have "repeated_words (Suc n) = repeated_words (n + 1)" by simp
  also have "\<dots> = repeated_words n @ '' '' @ repeated_words 1"
    using assms by (intro repeated_words_add) simp_all
  finally have s: "repeated_words (Suc n) = join_space (replicate n ''x'') @ '' x''"
    by (simp add: repeated_words_def)
  have "join_space (replicate n ''x'' @ [''x.''])
      = join_space (replicate n ''x'') @ '' '' @ join_space [''x.'']"
    using assms by (intro join_space_append) simp_all
  then have e: "repeated_words (Suc n) @ ''. '' = join_space (replicate n ''x'' @ [''x.'']) @ '' ''"
    using s by simp
  have t1: "str_split (join_space (replicate n ''x'' @ [''x.'']) @ '' '')
      = str_split (join_space (replicate n ''x'' @ [''x.'']))"
    by (rule str_split_trailing) (simp add: char_classes)
  have t2: "str_split (join_space (replicate n ''x'' @ [''x.'']))
      = replicate n ''x'' @ [''x.'']"
    by (rule str_split_join_space) (use char_classes in auto)
  show ?thesis by (simp only: e t1 t2)
qed

lemma str_strip_repeated_words: "str_strip (repeated_words n) = repeated_words n"
proof (cases n)
  case 0
  then show ?thesis by (simp add: repeated_words_def str_strip_def)
next
  case (Suc m)
  then show ?thesis
    unfolding repeated_words_def
    by (intro str_strip_join_space) (use char_classes in auto)
qed

lemma str_split_repeated_words: "str_split (repeated_words n) = replicate n ''x''"
  unfolding repeated_words_def
  by (rule str_split_join_space) (use char_classes in auto)

lemma repeated_words_no_period: "CHR ''.'' \<notin> set (repeated_words n)"
proof
  assume "CHR ''.'' \<in> set (repeated_words n)"
  then have "CHR ''.'' \<in> (\<Union>w \<in> set (replicate n ''x''). set w) \<union> {CHR '' ''}"
    using set_join_space [of "replicate n ''x''"] unfolding repeated_words_def by blast
  then show False by (auto split: if_splits)
qed

lemma repetitive_text_words:
  "repetitive_text =
     join_space (replicate 299 ''x'' @ [''x.''] @ replicate 299 ''x'' @ [''x.'']
                 @ replicate 299 ''x'' @ [''x.''] @ replicate 300 ''x'')"
proof -
  have s: "repeated_words 300 = repeated_words (Suc 299)" by simp
  have "repeated_words 300 @ ''. '' @ repeated_words 300
      = join_space (replicate 299 ''x'' @ [''x.''] @ replicate 300 ''x'')"
    unfolding s using repeated_words_period [of 299 "replicate 300 ''x''"]
    by (simp add: repeated_words_def)
  then have "repeated_words 300 @ ''. '' @ repeated_words 300 @ ''. '' @ repeated_words 300
      = join_space (replicate 299 ''x'' @ [''x.''] @ replicate 299 ''x'' @ [''x.'']
                    @ replicate 300 ''x'')"
    unfolding s
    using repeated_words_period [of 299 "replicate 299 ''x'' @ [''x.''] @ replicate 300 ''x''"]
    by simp
  then have "repeated_words 300 @ ''. '' @ repeated_words 300 @ ''. ''
        @ repeated_words 300 @ ''. '' @ repeated_words 300
      = join_space (replicate 299 ''x'' @ [''x.''] @ replicate 299 ''x'' @ [''x.'']
                 @ replicate 299 ''x'' @ [''x.''] @ replicate 300 ''x'')"
    unfolding s
    using repeated_words_period [of 299 "replicate 299 ''x'' @ [''x.''] @ replicate 299 ''x''
        @ [''x.''] @ replicate 300 ''x''"]
    by simp
  then show ?thesis by (simp add: repetitive_text_def)
qed

lemma clean_repetitive_text: "clean_text repetitive_text = repetitive_text"
  unfolding repetitive_text_words
  by (rule clean_text_join_space) (use char_classes in auto)

lemma split_repetitive_text:
  "split_sentences repetitive_text
     = [repeated_words 300, repeated_words 300, repeated_words 300, repeated_words 300]"
proof -
  have first: "split_sentences (repeated_words 300 @ CHR ''.'' # CHR '' '' # rest)
      = repeated_words 300 # split_sentences rest" for rest
    using split_sentences_first [OF repeated_words_no_period, of 300 rest] by simp
  have last: "split_sentences (repeated_words 300) = [repeated_words 300]"
    using repeated_words_no_period by (rule split_sentences_plain)
  show ?thesis
    unfolding repetitive_text_def by (simp add: first last)
qed

lemma chunk_loop_closes:
  assumes "int (length (current_chunk @ sentence)) > chunk_size p" and "current_chunk \<noteq> []"
    and "str_strip current_chunk = emitted"
    and "join_space (slice_last (chunk_overlap p) (str_split current_chunk)) @ '' '' @ sentence
         = next_chunk"
  shows "chunk_loop p (sentence # sentences) (chunks, current_chunk)
       = chunk_loop p sentences (chunks @ [emitted], next_chunk)"
  using assms by (simp add: Let_def)

lemma chunk_loop_extends:
  assumes "\<not> (int (length (current_chunk @ sentence)) > chunk_size p \<and> current_chunk \<noteq> [])"
  shows "chunk_loop p (sentence # sentences) (chunks, current_chunk)
       = chunk_loop p sentences (chunks, current_chunk @ sentence @ ''. '')"
  using assms by auto

lemma create_chunks_repetitive_text:
  "create_chunks default_processor repetitive_text =
     [repeated_words 300 @ ''.'',
      join_space (replicate 199 ''x'' @ [''x.''] @ replicate 300 ''x''),
      repeated_words 500,
      repeated_words 500]"
proof -
  let ?p = default_processor
  let ?S = "repeated_words 300"
  let ?B1 = "[] @ ?S @ ''. ''"
  let ?B2 = "join_space (replicate 199 ''x'' @ [''x.'']) @ '' '' @ ?S"
  let ?B3 = "join_space (replicate 200 ''x'') @ '' '' @ ?S"
  have p: "chunk_size ?p = 1000" "chunk_overlap ?p = 200"
    by (simp_all add: default_processor_def)
  have lenS: "length ?S = 599"
    using length_repeated_words [of 299] by simp
  \<comment> \<open>the buffer after the first sentence\<close>
  have B1: "?B1 = ?S @ ''. ''" by simp
  have split1: "str_split ?B1 = replicate 299 ''x'' @ [''x.'']"
    unfolding B1 using str_split_sentence_period [of 299] by simp
  have carry1: "slice_last 200 (replicate 299 ''x'' @ [''x.'']) = replicate 199 ''x'' @ [''x.'']"
    by (simp add: slice_last_positive)
  have strip1: "str_strip ?B1 = ?S @ ''.''"
    unfolding B1 by (rule str_strip_period) (rule str_strip_repeated_words)
  have next1: "join_space (slice_last (chunk_overlap ?p) (str_split ?B1)) @ '' '' @ ?S = ?B2"
    by (simp only: p split1 carry1)
  have over1: "int (length (?B1 @ ?S)) > chunk_size ?p" "?B1 \<noteq> []"
    using lenS by (simp_all add: p)
  \<comment> \<open>the buffer after the second sentence\<close>
  have B2: "?B2 = join_space (replicate 199 ''x'' @ [''x.''] @ replicate 300 ''x'')"
    using join_space_append [of "replicate 199 ''x'' @ [''x.'']" "replicate 300 ''x''"]
    by (simp add: repeated_words_def)
  have "length (join_space (replicate 199 ''x'' @ [''x.''])) = 400"
    using join_space_append [of "replicate 199 ''x''" "[''x.'']"]
      length_repeated_words [of 198]
    by (simp add: repeated_words_def)
  then have lenB2: "length ?B2 = 1000" using lenS by simp
  have split2: "str_split ?B2 = replicate 199 ''x'' @ [''x.''] @ replicate 300 ''x''"
    unfolding B2 by (rule str_split_join_space) (use char_classes in auto)
  have carry2: "slice_last 200 (replicate 199 ''x'' @ [''x.''] @ replicate 300 ''x'')
      = replicate 200 ''x''"
    by (simp add: slice_last_positive)
  have strip2: "str_strip ?B2 = ?B2"
    unfolding B2 by (rule str_strip_join_space) (use char_classes in auto)
  have next2: "join_space (slice_last (chunk_overlap ?p) (str_split ?B2)) @ '' '' @ ?S = ?B3"
    by (simp only: p split2 carry2)
  have over2: "int (length (?B2 @ ?S)) > chunk_size ?p" "?B2 \<noteq> []"
    using lenS lenB2 by (auto simp: p)
  \<comment> \<open>the buffer after the third and after the fourth sentence\<close>
  have B3: "?B3 = repeated_words 500"
    using repeated_words_add [of 200 300] by (simp add: repeated_words_def)
  have lenB3: "length ?B3 = 999"
    unfolding B3 using length_repeated_words [of 499] by simp
  have split3: "str_split ?B3 = replicate 500 ''x''"
    unfolding B3 by (rule str_split_repeated_words)
  have carry3: "slice_last 200 (replicate 500 ''x'') = replicate 200 ''x''"
    by (simp add: slice_last_positive)
  have strip3: "str_strip ?B3 = ?B3"
    unfolding B3 by (rule str_strip_repeated_words)
  have next3: "join_space (slice_last (chunk_overlap ?p) (str_split ?B3)) @ '' '' @ ?S = ?B3"
    by (simp only: p split3 carry3)
  have over3: "int (length (?B3 @ ?S)) > chunk_size ?p" "?B3 \<noteq> []"
    using lenS lenB3 by (auto simp: p)
  \<comment> \<open>the loop\<close>
  have "chunk_loop ?p [?S, ?S, ?S, ?S] ([], []) = chunk_loop ?p [?S, ?S, ?S] ([], ?B1)"
    by (rule chunk_loop_extends) simp
  also have "\<dots> = chunk_loop ?p [?S, ?S] ([] @ [?S @ ''.''], ?B2)"
    using over1 strip1 next1 by (rule chunk_loop_closes)
  also have "\<dots> = chunk_loop ?p [?S] (([] @ [?S @ ''.'']) @ [?B2], ?B3)"
    using over2 strip2 next2 by (rule chunk_loop_closes)
  also have "\<dots> = chunk_loop ?p [] ((([] @ [?S @ ''.'']) @ [?B2]) @ [?B3], ?B3)"
    using over3 strip3 next3 by (rule chunk_loop_closes)
  finally have loop: "chunk_loop ?p [?S, ?S, ?S, ?S] ([], [])
      = ([?S @ ''.'', ?B2, ?B3], ?B3)"
    by (simp only: chunk_loop.simps append_Nil append_Cons)
  have "?B3 \<noteq> []" using over3 by simp
  then have "create_chunks ?p repetitive_text = [?S @ ''.'', ?B2, ?B3] @ [?B3]"
    unfolding create_chunks_def split_repetitive_text Let_def loop
    by (simp only: strip3 prod.case not_False_eq_True if_True)
  then show ?thesis unfolding B2 B3 by (simp only: append_Nil append_Cons)
qed

text \<open>
  C3, as the claim words it: consecutive chunks overlap by at most \<open>chunk_overlap\<close>
  words. The chunker carries at most that many words over, but the sentence it appends
  behind them can continue the run. With the configured size 1000 and overlap 200, the
  text of four sentences of 300 one-letter words gives four chunks: the last 300 words of
  the second are the first 300 words of the third, and the third and the fourth are the
  same 500 words.
\<close>

theorem process_text_file_overlap_counterexample:
  "chunk_overlap default_processor = 200
   \<and> map chunk_content
        (process_text_file default_processor (\<lambda>path. Inr repetitive_text) ''/docs/x.txt'')
       = [repeated_words 300 @ ''.'',
          join_space (replicate 199 ''x'' @ [''x.''] @ replicate 300 ''x''),
          repeated_words 500,
          repeated_words 500]
   \<and> shares_words 300
        (join_space (replicate 199 ''x'' @ [''x.''] @ replicate 300 ''x''))
        (repeated_words 500)
   \<and> shares_words 500 (repeated_words 500) (repeated_words 500)"
proof -
  have "map chunk_content
        (process_text_file default_processor (\<lambda>path. Inr repetitive_text) ''/docs/x.txt'')
       = [repeated_words 300 @ ''.'',
          join_space (replicate 199 ''x'' @ [''x.''] @ replicate 300 ''x''),
          repeated_words 500,
          repeated_words 500]"
    by (simp add: process_text_file_contents clean_repetitive_text
        create_chunks_repetitive_text)
  moreover have "str_split (join_space (replicate 199 ''x'' @ [''x.''] @ replicate 300 ''x''))
      = replicate 199 ''x'' @ [''x.''] @ replicate 300 ''x''"
    by (rule str_split_join_space) (use char_classes in auto)
  then have "shares_words 300
        (join_space (replicate 199 ''x'' @ [''x.''] @ replicate 300 ''x''))
        (repeated_words 500)"
    by (simp add: shares_words_def str_split_repeated_words)
  moreover have "shares_words 500 (repeated_words 500) (repeated_words 500)"
    by (simp add: shares_words_def str_split_repeated_words)
  ultimately show ?thesis by (simp add: default_processor_def)
qed

text \<open>
  C3, amended: with the configured overlap (any positive setting), every chunk after the
  first begins with the words carried over from the chunk before it, which are the last
  \<open>chunk_overlap\<close> words of that chunk, or all its words when it has fewer: consecutive
  chunks share at least these words. The \<open>chunk_id\<close> values of the chunks of one
  document are \<open>0, 1, ..., N - 1\<close> in emission order, and \<open>total_chunks\<close> is \<open>N\<close> on
  every chunk.
\<close>

theorem process_text_file_chunks:
  assumes "0 < chunk_overlap p"
  shows "successively (overlap_carried p) (map chunk_content (process_text_file p read_file file_path))
    \<and> map (\<lambda>c. chunk_id (chunk_meta c)) (process_text_file p read_file file_path)
        = [0 ..< length (process_text_file p read_file file_path)]
    \<and> (\<forall>c \<in> set (process_text_file p read_file file_path).
          total_chunks (chunk_meta c) = length (process_text_file p read_file file_path))"
proof -
  have "successively (overlap_carried p)
      (map chunk_content (process_text_file p read_file file_path))"
    unfolding process_text_file_contents
    using create_chunks_overlap [OF assms] by (simp split: sum.splits)
  then show ?thesis
    using process_text_file_ids process_text_file_totals by blast
qed

theorem process_text_file_chunks_witness:
  "0 < chunk_overlap default_processor
   \<and> map chunk_content
        (process_text_file default_processor (\<lambda>path. Inr repetitive_text) ''/docs/x.txt'')
       = [repeated_words 300 @ ''.'',
          join_space (replicate 199 ''x'' @ [''x.''] @ replicate 300 ''x''),
          repeated_words 500,
          repeated_words 500]
   \<and> successively (overlap_carried default_processor)
        (map chunk_content
          (process_text_file default_processor (\<lambda>path. Inr repetitive_text) ''/docs/x.txt''))
   \<and> map (\<lambda>c. chunk_id (chunk_meta c))
        (process_text_file default_processor (\<lambda>path. Inr repetitive_text) ''/docs/x.txt'')
       = [0, 1, 2, 3]
   \<and> map (\<lambda>c. total_chunks (chunk_meta c))
        (process_text_file default_processor (\<lambda>path. Inr repetitive_text) ''/docs/x.txt'')
       = [4, 4, 4, 4]"
proof -
  let ?p = default_processor
  let ?r = "process_text_file ?p (\<lambda>path. Inr repetitive_text) ''/docs/x.txt''"
  have pos: "0 < chunk_overlap ?p" by (simp add: default_processor_def)
  have contents: "map chunk_content ?r
       = [repeated_words 300 @ ''.'',
          join_space (replicate 199 ''x'' @ [''x.''] @ replicate 300 ''x''),
          repeated_words 500,
          repeated_words 500]"
    by (simp add: process_text_file_contents clean_repetitive_text
        create_chunks_repetitive_text)
  have "length (map chunk_content ?r) = 4" unfolding contents by simp
  then have len: "length ?r = 4" by simp
  have all: "successively (overlap_carried ?p) (map chunk_content ?r)
      \<and> map (\<lambda>c. chunk_id (chunk_meta c)) ?r = [0 ..< length ?r]
      \<and> (\<forall>c \<in> set ?r. total_chunks (chunk_meta c) = length ?r)"
    using process_text_file_chunks [OF pos] by blast
  have ids: "map (\<lambda>c. chunk_id (chunk_meta c)) ?r = [0, 1, 2, 3]"
    using all unfolding len by (simp add: upt_rec)
  have "map (\<lambda>c. total_chunks (chunk_meta c)) ?r = map (\<lambda>c. 4) ?r"
    using all unfolding len by (intro map_cong) simp_all
  then have totals: "map (\<lambda>c. total_chunks (chunk_meta c)) ?r = [4, 4, 4, 4]"
    using len by (simp add: map_replicate_const numeral_eq_Suc)
  show ?thesis using pos contents ids totals all by blast
qed

section \<open>Retrieval\<close>








text \<open>
  C8: when the index raises, or answers with no row or an empty row of documents,
  \<open>retrieve_relevant_docs\<close> returns the empty list. It is a total function into lists:
  no error reaches the caller.
\<close>

theorem retrieve_relevant_docs_empty:
  assumes "(\<exists>e. collection query k None = Inl e)
     \<or> (\<exists>results. collection query k None = Inr results
           \<and> (documents results = [] \<or> (\<exists>rows. documents results = [] # rows)))"
  shows "retrieve_relevant_docs collection query k = []"
  using assms
  by (auto simp: retrieve_relevant_docs_def similarity_search_def format_results_def)

theorem retrieve_relevant_docs_empty_witness:
  "retrieve_relevant_docs
     (\<lambda>query k w. Inr \<lparr>documents = [[]], metadatas = [[]], distances = [[]]\<rparr>)
     ''What is Article 14?'' 5 = []
   \<and> retrieve_relevant_docs (\<lambda>query k w. Inl StoreError) ''What is Article 14?'' 5 = []"
proof -
  have "retrieve_relevant_docs
     (\<lambda>query k w. Inr \<lparr>documents = [[]], metadatas = [[]], distances = [[]]\<rparr>)
     ''What is Article 14?'' 5 = []"
    by (rule retrieve_relevant_docs_empty) simp
  moreover have "retrieve_relevant_docs (\<lambda>query k w. Inl StoreError) ''What is Article 14?'' 5 = []"
    by (rule retrieve_relevant_docs_empty) simp
  ultimately show ?thesis by blast
qed

text \<open>
  C10: with the domain \<open>None\<close> or the empty string, \<open>filter_by_legal_domain\<close> passes no
  metadata filter to the index and returns what \<open>retrieve_relevant_docs\<close> returns for the
  same query and ten results.
\<close>

theorem filter_by_legal_domain_unfiltered:
  "filter_by_legal_domain collection query None = retrieve_relevant_docs collection query 10
   \<and> filter_by_legal_domain collection query (Some '''')
       = retrieve_relevant_docs collection query 10"
  by (simp add: filter_by_legal_domain_def retrieve_relevant_docs_def)

section \<open>Response generation\<close>

lemma context_parts_well_formed:
  "\<forall>doc \<in> set docs. content doc \<noteq> None \<and> metadata doc \<noteq> None \<Longrightarrow>
     \<exists>parts. context_parts docs = Inr parts"
  by (induction docs) auto

lemma create_context_well_formed:
  assumes "\<forall>doc \<in> set docs. content doc \<noteq> None \<and> metadata doc \<noteq> None"
  shows "\<exists>context. create_context docs = Inr context"
proof -
  have "\<forall>doc \<in> set (take 3 docs). content doc \<noteq> None \<and> metadata doc \<noteq> None"
    using assms by (meson in_set_takeD)
  then obtain parts where "context_parts (take 3 docs) = Inr parts"
    using context_parts_well_formed by blast
  then show ?thesis by (simp add: create_context_def)
qed

lemma numbered_excerpts_well_formed:
  "\<forall>doc \<in> set docs. content doc \<noteq> None \<Longrightarrow>
     numbered_excerpts i docs =
       Inr (concat (map (\<lambda>(j, doc). show_nat (j + 1) @ ''. '' @ take 300 (the (content doc))
                                   @ ''...'' @ newline @ newline)
                        (enumerate i docs)))"
  by (induction docs arbitrary: i) auto

lemma collect_sources_well_formed:
  "\<forall>doc \<in> set docs. metadata doc \<noteq> None \<Longrightarrow>
     collect_sources docs = Inr (map (\<lambda>doc. the (metadata doc)) docs)"
  by (induction docs) auto

lemma rule_based_well_formed:
  assumes "\<forall>doc \<in> set docs. content doc \<noteq> None \<and> metadata doc \<noteq> None"
  shows "generate_rule_based_response query docs =
     Inr (if docs = [] then no_information_message
          else rule_based_header
               @ concat (map (\<lambda>(j, doc). show_nat (j + 1) @ ''. ''
                                @ take 300 (the (content doc)) @ ''...'' @ newline @ newline)
                             (enumerate 0 (take 2 docs)))
               @ educational_disclaimer)"
proof -
  have "\<forall>doc \<in> set (take 2 docs). content doc \<noteq> None"
    using assms by (meson in_set_takeD)
  then show ?thesis
    by (simp add: generate_rule_based_response_def numbered_excerpts_well_formed)
qed

lemma try_generate_well_formed:
  assumes "\<forall>doc \<in> set docs. content doc \<noteq> None \<and> metadata doc \<noteq> None"
  shows "\<exists>reply. try_generate generator query docs =
     Inr \<lparr> response = reply, sources = map (\<lambda>doc. the (metadata doc)) docs,
           confidence = calculate_confidence docs \<rparr>"
proof -
  obtain ctx where c: "create_context docs = Inr ctx"
    using create_context_well_formed [OF assms] by blast
  have s: "collect_sources docs = Inr (map (\<lambda>doc. the (metadata doc)) docs)"
    using assms by (simp add: collect_sources_well_formed)
  show ?thesis
  proof (cases generator)
    case None
    then show ?thesis
      using c s rule_based_well_formed [OF assms, of query]
      by (simp add: try_generate_def Let_def)
  next
    case (Some g)
    then show ?thesis using c s by (simp add: try_generate_def Let_def)
  qed
qed

text \<open>
  C5: for retrieval results that carry content, metadata and the similarity scores
  \<open>scores\<close>, the confidence of the answer is the arithmetic mean of \<open>scores\<close>, and it
  is 0 for the empty list. Scores are real numbers in the model.
\<close>

theorem generate_confidence_mean:
  assumes "\<forall>doc \<in> set relevant_docs. content doc \<noteq> None \<and> metadata doc \<noteq> None"
    and "map similarity_score relevant_docs = map Some scores"
  shows "confidence (generate_legal_response generator query relevant_docs) =
     (if relevant_docs = [] then 0 else sum_list scores / real (length scores))"
proof -
  obtain reply where "try_generate generator query relevant_docs =
     Inr \<lparr> response = reply, sources = map (\<lambda>doc. the (metadata doc)) relevant_docs,
           confidence = calculate_confidence relevant_docs \<rparr>"
    using try_generate_well_formed [OF assms(1)] by blast
  then have conf: "confidence (generate_legal_response generator query relevant_docs)
      = calculate_confidence relevant_docs"
    by (simp add: generate_legal_response_def)
  have "map score_of relevant_docs = scores"
  proof (rule nth_equalityI)
    show "length (map score_of relevant_docs) = length scores"
      using assms(2) by (metis length_map)
  next
    fix i assume "i < length (map score_of relevant_docs)"
    then have i: "i < length relevant_docs" by simp
    then have "similarity_score (relevant_docs ! i) = Some (scores ! i)"
      using assms(2) by (metis length_map nth_map)
    then show "map score_of relevant_docs ! i = scores ! i"
      using i by (simp add: score_of_def)
  qed
  then show ?thesis
    unfolding conf by (auto simp: calculate_confidence_def Let_def)
qed

theorem generate_confidence_mean_witness:
  "confidence (generate_legal_response None ''What is Article 14?''
      [\<lparr>content = Some ''Equality before law'', metadata = Some [(''source'', MStr ''Constitution'')],
        similarity_score = Some (9 / 10), rank = Some 1\<rparr>,
       \<lparr>content = Some ''Protection of life'', metadata = Some [(''source'', MStr ''Constitution'')],
        similarity_score = Some (7 / 10), rank = Some 2\<rparr>]) = 4 / 5"
  using generate_confidence_mean [of
      "[\<lparr>content = Some ''Equality before law'', metadata = Some [(''source'', MStr ''Constitution'')],
        similarity_score = Some (9 / 10), rank = Some 1\<rparr>,
       \<lparr>content = Some ''Protection of life'', metadata = Some [(''source'', MStr ''Constitution'')],
        similarity_score = Some (7 / 10), rank = Some 2\<rparr>]" "[9 / 10, 7 / 10]" None
      "''What is Article 14?''"]
  by simp











text \<open>
  C9, as the claim words it: for the empty document list the response says that nothing
  was found. With a loaded model the response is what the model generated.
\<close>

theorem generate_empty_docs_model_counterexample:
  "response (generate_legal_response
       (Some (\<lambda>prompt n. Inr (prompt @ '' Murder is punishable under section 302.'')))
       ''What is murder?'' [])
     = ''Murder is punishable under section 302.''
   \<and> response (generate_legal_response
       (Some (\<lambda>prompt n. Inr (prompt @ '' Murder is punishable under section 302.'')))
       ''What is murder?'' [])
     \<noteq> no_information_message"
proof -
  have r: "response (generate_legal_response
       (Some (\<lambda>prompt n. Inr (prompt @ '' Murder is punishable under section 302.'')))
       ''What is murder?'' [])
     = ''Murder is punishable under section 302.''"
    by code_simp
  show ?thesis unfolding r by (simp add: no_information_message_def)
qed

text \<open>
  C9, amended: for the empty document list the confidence is 0 and there are no sources;
  the response is the no-information message when the language model failed to load, and
  the stripped output of the model for the prompt with an empty context otherwise.
\<close>

theorem generate_empty_docs:
  "confidence (generate_legal_response generator query []) = 0
   \<and> sources (generate_legal_response generator query []) = []
   \<and> response (generate_legal_response None query []) = no_information_message
   \<and> (\<forall>g. response (generate_legal_response (Some g) query [])
          = generate_with_model g (create_legal_prompt query []))"
  by (cases generator)
    (simp_all add: generate_legal_response_def try_generate_def create_context_def
      generate_rule_based_response_def calculate_confidence_def Let_def)

end
